theory Spec2Isabelle
  imports Complex_Main "HOL-Library.Stream"
begin

section \<open>Python values used by the simulation\<close>

text \<open>
  A Python float is modelled as an exact real or the value NaN, which the
  source uses as the "annotator abstained" sentinel (\<open>np.nan\<close>).  Rounding of
  the floating-point arithmetic is not modelled: the judgements are Likert
  integers and their medians are integers or halves.
\<close>

datatype weight = Val real | NaN

datatype py_error = IndexError | KeyError | TypeError | ValueError | SystemExit

fun isnan :: "weight \<Rightarrow> bool" where
  "isnan NaN = True"
| "isnan (Val x) = False"

text \<open>The numeric entries of a list of floats, in order (what \<open>np.nanmedian\<close> keeps).\<close>

fun numeric :: "weight list \<Rightarrow> real list" where
  "numeric [] = []"
| "numeric (NaN # ws) = numeric ws"
| "numeric (Val x # ws) = x # numeric ws"

text \<open>\<open>np.median\<close> of a non-empty list: the middle element of the sorted list, or the
  mean of the two middle elements.\<close>

definition median :: "real list \<Rightarrow> real" where
  "median xs =
     (let s = sort xs; n = length s
      in if n mod 2 = 1 then s ! (n div 2)
         else (s ! (n div 2 - 1) + s ! (n div 2)) / 2)"

text \<open>\<open>np.nanmedian\<close>: the median of the entries that are not NaN; NaN when there is none.\<close>

definition nanmedian :: "weight list \<Rightarrow> weight" where
  "nanmedian ws = (if numeric ws = [] then NaN else Val (median (numeric ws)))"

text \<open>Float subtraction \<open>w - r\<close>; NaN propagates.\<close>

fun fsub :: "weight \<Rightarrow> real \<Rightarrow> weight" where
  "fsub (Val x) r = Val (x - r)"
| "fsub NaN r = NaN"

text \<open>Python list assignment \<open>xs[i] = v\<close>: a negative index counts from the end, an index
  out of range raises IndexError.\<close>

definition list_set :: "'a list \<Rightarrow> int \<Rightarrow> 'a \<Rightarrow> py_error + 'a list" where
  "list_set xs i v =
     (if 0 \<le> i \<and> i < int (length xs) then Inr (xs[nat i := v])
      else if i < 0 \<and> - int (length xs) \<le> i then Inr (xs[nat (int (length xs) + i) := v])
      else Inl IndexError)"

section \<open>The networkx graph\<close>

text \<open>
  An undirected \<open>nx.Graph\<close> as the source uses it: the nodes in insertion order and
  the weighted edges, one entry per unordered pair.  \<open>add_weighted_edges_from\<close> adds
  the missing endpoints and sets (or overwrites) the weight of the edge.
\<close>

record nxgraph =
  g_nodes :: "int list"
  g_edges :: "(int \<times> int \<times> weight) list"

definition nx_empty :: nxgraph where
  "nx_empty = \<lparr>g_nodes = [], g_edges = []\<rparr>"

definition nx_add_node :: "int \<Rightarrow> int list \<Rightarrow> int list" where
  "nx_add_node n ns = (if n \<in> set ns then ns else ns @ [n])"

fun nx_set_edge :: "int \<Rightarrow> int \<Rightarrow> weight \<Rightarrow> (int \<times> int \<times> weight) list \<Rightarrow> (int \<times> int \<times> weight) list" where
  "nx_set_edge u v w [] = [(u, v, w)]"
| "nx_set_edge u v w ((a, b, x) # es) =
     (if (a = u \<and> b = v) \<or> (a = v \<and> b = u) then (a, b, w) # es
      else (a, b, x) # nx_set_edge u v w es)"

definition add_weighted_edge :: "int \<Rightarrow> int \<Rightarrow> weight \<Rightarrow> nxgraph \<Rightarrow> nxgraph" where
  "add_weighted_edge u v w gr =
     \<lparr>g_nodes = nx_add_node v (nx_add_node u (g_nodes gr)),
      g_edges = nx_set_edge u v w (g_edges gr)\<rparr>"

section \<open>AnnotatedGraph (graphs/annotated\_graph.py)\<close>

text \<open>
  The fields of \<open>AnnotatedGraph\<close>.  \<open>G\<close>, \<open>edge_weight\<close>, \<open>weight_edge\<close> and
  \<open>community_nodes\<close> are inherited from \<open>BaseGraph\<close>; the dictionaries of
  \<open>G.graph\<close> are maps, the ordered dictionary \<open>community_nodes\<close> (iterated by
  \<open>update_community_nodes_membership\<close>) is an association list.
\<close>

record annotated_graph =
  G :: nxgraph
  edge_weight :: "(int \<times> int) \<rightharpoonup> weight"
  weight_edge :: "weight \<rightharpoonup> (int \<times> int) list"
  community_nodes :: "(int \<times> int list) list"
  edge_soft_weight :: "(int \<times> int) \<rightharpoonup> weight"
  edge_added_weights :: "(int \<times> int) \<rightharpoonup> weight list"
  max_nodes :: nat
  labels :: "int list"
  last_edge :: "(int \<times> int) option"
  judgements :: nat

text \<open>
  Modelled from the spec: the constructor of \<open>BaseGraph\<close>, which
  \<open>AnnotatedGraph.__init__\<close> calls, is not part of the sources; the annotated graph
  "starts empty (no edges, all labels -1)", so the inherited graph and dictionaries
  start empty.  The other fields are set as the source sets them.
\<close>

definition AnnotatedGraph :: "nat \<Rightarrow> annotated_graph" where
  "AnnotatedGraph n =
     \<lparr>G = nx_empty, edge_weight = Map.empty, weight_edge = Map.empty,
      community_nodes = [], edge_soft_weight = Map.empty,
      edge_added_weights = Map.empty, max_nodes = n,
      labels = replicate n (- 1), last_edge = None, judgements = 0\<rparr>"

definition get_edge :: "annotated_graph \<Rightarrow> int \<Rightarrow> int \<Rightarrow> weight option" where
  "get_edge g u_node v_node =
     (let u = min u_node v_node; v = max u_node v_node
      in case edge_added_weights g (u, v) of
           None \<Rightarrow> None
         | Some ws \<Rightarrow> (let w = nanmedian ws in Some (if isnan w then Val 0 else w)))"

definition add_edge :: "int \<Rightarrow> int \<Rightarrow> weight \<Rightarrow> annotated_graph \<Rightarrow> annotated_graph" where
  "add_edge node_u node_v wt g =
     (let u = min node_u node_v; v = max node_u node_v;
          nweight = (if wt \<noteq> Val 0 then wt else NaN);
          hist = (case edge_added_weights g (u, v) of None \<Rightarrow> [] | Some h \<Rightarrow> h) @ [nweight];
          g1 = g\<lparr>edge_added_weights := (edge_added_weights g)((u, v) \<mapsto> hist)\<rparr>;
          weight_to_add = nanmedian hist
      in if isnan weight_to_add
         then g1\<lparr>last_edge := Some (node_u, node_v), judgements := judgements g1 + 1\<rparr>
         else g1\<lparr>G := add_weighted_edge u v weight_to_add (G g1),
                 edge_weight := (edge_weight g1)((u, v) \<mapsto> weight_to_add),
                 edge_soft_weight := (edge_soft_weight g1)((u, v) \<mapsto> fsub weight_to_add (5 / 2)),
                 weight_edge := (weight_edge g1)(weight_to_add \<mapsto>
                    (case weight_edge g1 weight_to_add of None \<Rightarrow> [] | Some es \<Rightarrow> es) @ [(u, v)]),
                 last_edge := Some (node_u, node_v),
                 judgements := judgements g1 + 1\<rparr>)"

fun add_edges :: "(int \<times> int \<times> weight) list \<Rightarrow> annotated_graph \<Rightarrow> annotated_graph" where
  "add_edges [] g = g"
| "add_edges ((u, v, w) # es) g = add_edges es (add_edge u v w g)"

definition get_last_added_edge :: "annotated_graph \<Rightarrow> (int \<times> int) option" where
  "get_last_added_edge g = last_edge g"

definition get_last_added_node :: "annotated_graph \<Rightarrow> int option" where
  "get_last_added_node g = (case last_edge g of None \<Rightarrow> None | Some e \<Rightarrow> Some (snd e))"

definition get_num_added_edges :: "annotated_graph \<Rightarrow> nat" where
  "get_num_added_edges g = judgements g"

text \<open>
  Modelled from the spec: \<open>BaseGraph.update_community_nodes_membership\<close> is not
  part of the sources; it "replaces communityNodes wholesale".
\<close>

definition base_update_community_nodes_membership ::
  "(int \<times> int list) list \<Rightarrow> annotated_graph \<Rightarrow> annotated_graph" where
  "base_update_community_nodes_membership new_community_nodes g =
     g\<lparr>community_nodes := new_community_nodes\<rparr>"

text \<open>The inner loop \<open>for node in v: self.labels[node] = k\<close>.\<close>

fun label_cluster :: "int \<Rightarrow> int list \<Rightarrow> int list \<Rightarrow> py_error + int list" where
  "label_cluster k [] ls = Inr ls"
| "label_cluster k (node # ns) ls =
     (case list_set ls node k of Inl e \<Rightarrow> Inl e | Inr ls' \<Rightarrow> label_cluster k ns ls')"

text \<open>The outer loop \<open>for k, v in community_nodes.items()\<close>.\<close>

fun label_clusters :: "(int \<times> int list) list \<Rightarrow> int list \<Rightarrow> py_error + int list" where
  "label_clusters [] ls = Inr ls"
| "label_clusters ((k, v) # cs) ls =
     (case label_cluster k v ls of Inl e \<Rightarrow> Inl e | Inr ls' \<Rightarrow> label_clusters cs ls')"

definition update_community_nodes_membership ::
  "(int \<times> int list) list \<Rightarrow> annotated_graph \<Rightarrow> py_error + annotated_graph" where
  "update_community_nodes_membership new_community_nodes g =
     (let g1 = base_update_community_nodes_membership new_community_nodes g
      in case label_clusters (community_nodes g1) (labels g1) of
           Inl e \<Rightarrow> Inl e
         | Inr ls \<Rightarrow> Inr (g1\<lparr>labels := ls\<rparr>))"

text \<open>Sequencing of two calls of which the first may raise.\<close>

definition bind_err :: "py_error + 'a \<Rightarrow> ('a \<Rightarrow> py_error + 'b) \<Rightarrow> py_error + 'b" where
  "bind_err r f = (case r of Inl e \<Rightarrow> Inl e | Inr x \<Rightarrow> f x)"

text \<open>The ids of the clusters of a mapping that mention node \<open>n\<close>, in the mapping's order.\<close>

definition cluster_ids_of :: "(int \<times> int list) list \<Rightarrow> int \<Rightarrow> int list" where
  "cluster_ids_of cs n = map fst (filter (\<lambda>(k, ns). n \<in> set ns) cs)"

text \<open>
  The invariant of the weight dictionaries: they hold, for every key, the median of the
  numeric entries of the key's history, and nothing for a history without one.
\<close>

definition weights_consistent :: "annotated_graph \<Rightarrow> bool" where
  "weights_consistent g \<longleftrightarrow>
     (\<forall>e. edge_weight g e =
             (case edge_added_weights g e of None \<Rightarrow> None
              | Some h \<Rightarrow> if numeric h = [] then None else Some (Val (median (numeric h))))
        \<and> edge_soft_weight g e =
             (case edge_added_weights g e of None \<Rightarrow> None
              | Some h \<Rightarrow> if numeric h = [] then None else Some (Val (median (numeric h) - 5 / 2))))"

section \<open>The DWUG sampler (simulation/sampling/utils/dwug\_sampling.py)\<close>

subsection \<open>Numbers and random draws\<close>




text \<open>
  The state of the random number generators is a stream of natural numbers; a draw
  among \<open>n\<close> alternatives takes the head of the stream modulo \<open>n\<close>, so every outcome
  of the library call is the outcome for some stream.
\<close>

type_synonym rng = "nat stream"

text \<open>\<open>random.choice(seq)\<close>: IndexError on an empty sequence.\<close>

definition random_choice :: "'a list \<Rightarrow> rng \<Rightarrow> py_error + ('a \<times> rng)" where
  "random_choice xs r =
     (if xs = [] then Inl IndexError else Inr (xs ! (shd r mod length xs), stl r))"




subsection \<open>The graphs the sampler reads\<close>






subsection \<open>Exploration phase\<close>




subsection \<open>Initial round\<close>




subsection \<open>Later rounds\<close>





definition multi_clusters :: "annotated_graph \<Rightarrow> int \<Rightarrow> int list list" where
  "multi_clusters g min_size_mc =
     map snd (filter (\<lambda>(k, v). min_size_mc \<le> int (length v)) (community_nodes g))"








section \<open>The correlation clusterer (clustering/utils/new\_cluster\_correlation\_search.py)\<close>

subsection \<open>Connected components of networkx\<close>

text \<open>
  The comparisons \<open>w >= 0.0\<close> and \<open>w < 0.0\<close> on floats; both are false for NaN.
\<close>

fun wge0 :: "weight \<Rightarrow> bool" where
  "wge0 (Val x) = (0 \<le> x)"
| "wge0 NaN = False"

fun wlt0 :: "weight \<Rightarrow> bool" where
  "wlt0 (Val x) = (x < 0)"
| "wlt0 NaN = False"

text \<open>The neighbours of a node in an undirected edge list.\<close>

definition adj :: "(int \<times> int \<times> weight) list \<Rightarrow> int \<Rightarrow> int list" where
  "adj es v =
     concat (map (\<lambda>(a, b, w). (if a = v then [b] else []) @ (if b = v then [a] else [])) es)"

text \<open>
  \<open>_plain_bfs\<close> of networkx: the nodes seen so far and the next level; a level is
  processed by adding its unseen nodes and collecting their neighbours.  A Python set
  is modelled as the list of its elements; the order in which a set yields them is not
  modelled.
\<close>

function plain_bfs :: "(int \<times> int \<times> weight) list \<Rightarrow> int list \<Rightarrow> int list \<Rightarrow> int list" where
  "plain_bfs es seen nextlevel =
     (if nextlevel = [] then seen
      else (let new = remdups (filter (\<lambda>v. v \<notin> set seen) nextlevel)
            in plain_bfs es (seen @ new) (concat (map (adj es) new))))"
  by pat_completeness auto
termination
proof (relation "measures
    [\<lambda>(es, seen, nextlevel).
        card ((set (map fst es) \<union> set (map (fst \<circ> snd) es) \<union> set nextlevel) - set seen),
     \<lambda>(es, seen, nextlevel). length nextlevel]")
  show "wf (measures
    [\<lambda>(es, seen, nextlevel).
        card ((set (map fst es) \<union> set (map (fst \<circ> snd) es) \<union> set nextlevel) - set seen),
     \<lambda>(es, seen, nextlevel). length nextlevel])"
    by simp
next
  fix es :: "(int \<times> int \<times> weight) list" and seen nextlevel new :: "int list"
  assume ne: "nextlevel \<noteq> []" and new: "new = remdups (filter (\<lambda>v. v \<notin> set seen) nextlevel)"
  let ?V = "set (map fst es) \<union> set (map (fst \<circ> snd) es)"
  have adj_sub: "set (concat (map (adj es) new)) \<subseteq> ?V"
    by (force simp: adj_def split: if_splits)
  have sub: "(?V \<union> set (concat (map (adj es) new))) - set (seen @ new)
             \<subseteq> (?V \<union> set nextlevel) - set seen"
    using adj_sub by auto
  have fin: "finite ((?V \<union> set nextlevel) - set seen)" by simp
  show "((es, seen @ new, concat (map (adj es) new)), es, seen, nextlevel)
        \<in> measures
    [\<lambda>(es, seen, nextlevel).
        card ((set (map fst es) \<union> set (map (fst \<circ> snd) es) \<union> set nextlevel) - set seen),
     \<lambda>(es, seen, nextlevel). length nextlevel]"
  proof (cases "new = []")
    case True
    then have "set nextlevel \<subseteq> set seen"
      using new by (auto simp: filter_empty_conv)
    then have "(?V \<union> set (concat (map (adj es) new))) - set (seen @ new)
             = (?V \<union> set nextlevel) - set seen"
      using True by auto
    then have "card ((?V \<union> set (concat (map (adj es) new))) - set (seen @ new))
             = card ((?V \<union> set nextlevel) - set seen)"
      by simp
    moreover have "length (concat (map (adj es) new)) < length nextlevel"
      using True ne by simp
    ultimately show ?thesis by simp
  next
    case False
    then obtain x where x: "x \<in> set new" by (cases new) auto
    then have "x \<in> (?V \<union> set nextlevel) - set seen" using new by auto
    moreover have "x \<notin> (?V \<union> set (concat (map (adj es) new))) - set (seen @ new)"
      using x by simp
    ultimately have "(?V \<union> set (concat (map (adj es) new))) - set (seen @ new)
             \<subset> (?V \<union> set nextlevel) - set seen"
      using sub by blast
    then have "card ((?V \<union> set (concat (map (adj es) new))) - set (seen @ new))
             < card ((?V \<union> set nextlevel) - set seen)"
      using fin by (rule psubset_card_mono [rotated])
    then show ?thesis by simp
  qed
qed

declare plain_bfs.simps [simp del]

text \<open>\<open>nx.connected_components\<close>: a breadth-first search from every node not seen yet, in
  the order of the nodes.\<close>

fun components_loop :: "(int \<times> int \<times> weight) list \<Rightarrow> int list \<Rightarrow> int list \<Rightarrow> int list list" where
  "components_loop es [] seen = []"
| "components_loop es (v # vs) seen =
     (if v \<in> set seen then components_loop es vs seen
      else (let c = plain_bfs es [] [v] in c # components_loop es vs (seen @ c)))"

definition connected_components :: "nxgraph \<Rightarrow> int list list" where
  "connected_components gr = components_loop (g_edges gr) (g_nodes gr) []"

text \<open>\<open>G.remove_edges_from\<close> of the edges with a negative or NaN weight.\<close>

definition remove_negative_edges :: "nxgraph \<Rightarrow> nxgraph" where
  "remove_negative_edges gr =
     gr\<lparr>g_edges := filter (\<lambda>(i, j, w). \<not> (wlt0 w \<or> isnan w)) (g_edges gr)\<rparr>"

text \<open>\<open>cluster_connected_components\<close>; \<open>list(x)[0]\<close> is the first element of the cluster.\<close>

definition cluster_connected_components :: "nxgraph \<Rightarrow> int list list" where
  "cluster_connected_components gr =
     sort_key hd (connected_components (remove_negative_edges gr))"

text \<open>\<open>G.subgraph(cluster)\<close>: the induced subgraph on the nodes of the cluster that are
  nodes of the graph.\<close>

definition subgraph :: "nxgraph \<Rightarrow> int list \<Rightarrow> nxgraph" where
  "subgraph gr cluster =
     \<lparr>g_nodes = filter (\<lambda>n. n \<in> set cluster) (g_nodes gr),
      g_edges = filter (\<lambda>(a, b, w). a \<in> set cluster \<and> b \<in> set cluster) (g_edges gr)\<rparr>"

text \<open>The list \<open>classes_out\<close> of \<open>split_non_evidence_clusters\<close>: the components of the
  subgraph of every cluster, negative and NaN edges removed.\<close>

definition split_components :: "nxgraph \<Rightarrow> int list list \<Rightarrow> int list list" where
  "split_components gr clusters =
     concat (map (\<lambda>cluster. cluster_connected_components
                    (subgraph (remove_negative_edges gr) cluster)) clusters)"

definition split_non_evidence_clusters :: "nxgraph \<Rightarrow> int list list \<Rightarrow> py_error + int list list" where
  "split_non_evidence_clusters gr clusters =
     (let nodes_in = concat clusters;
          classes_out = split_components gr clusters;
          nodes_out = concat classes_out
      in if set nodes_in \<noteq> set nodes_out then Inl SystemExit
         else if length nodes_in \<noteq> length nodes_out then Inl SystemExit
         else Inr classes_out)"

subsection \<open>The search\<close>

fun index_of :: "int list \<Rightarrow> int \<Rightarrow> nat option" where
  "index_of [] n = None"
| "index_of (x # xs) n = (if x = n then Some 0 else map_option Suc (index_of xs n))"

text \<open>The dictionary \<open>n2i\<close>: the position of a node among \<open>G.nodes()\<close>; KeyError otherwise.\<close>

definition n2i :: "nxgraph \<Rightarrow> int \<Rightarrow> py_error + nat" where
  "n2i gr node = (case index_of (g_nodes gr) node of None \<Rightarrow> Inl KeyError | Some i \<Rightarrow> Inr i)"

text \<open>A comprehension whose element expression may raise.\<close>

fun map_err :: "('a \<Rightarrow> py_error + 'b) \<Rightarrow> 'a list \<Rightarrow> py_error + 'b list" where
  "map_err f [] = Inr []"
| "map_err f (x # xs) =
     (case f x of
        Inl e \<Rightarrow> Inl e
      | Inr y \<Rightarrow> (case map_err f xs of Inl e \<Rightarrow> Inl e | Inr ys \<Rightarrow> Inr (y # ys)))"

text \<open>The items of the dictionary \<open>n2c\<close> in the order of the comprehension; as in a Python
  dictionary, a later item replaces an earlier one with the same key.\<close>

definition n2c_items :: "nxgraph \<Rightarrow> int list list \<Rightarrow> py_error + (nat \<times> nat) list" where
  "n2c_items gr classes =
     map_err (\<lambda>(i, node). case n2i gr node of Inl e \<Rightarrow> Inl e | Inr k \<Rightarrow> Inr (k, i))
       (concat (map (\<lambda>(i, cluster). map (Pair i) cluster) (enumerate 0 classes)))"

definition dict_get :: "('k \<times> 'v) list \<Rightarrow> 'k \<Rightarrow> 'v option" where
  "dict_get items k = map_of (rev items) k"

text \<open>\<open>init_state = np.array([n2c[n] for n in sorted(n2c.keys())])\<close>.\<close>

definition init_state_of :: "(nat \<times> nat) list \<Rightarrow> nat list" where
  "init_state_of items =
     concat (map (\<lambda>k. case dict_get items k of None \<Rightarrow> [] | Some c \<Rightarrow> [c])
               (sort (remdups (map fst items))))"

text \<open>The sets \<open>edges_positive\<close> and \<open>edges_negative\<close>, without repetition.\<close>

definition edges_positive :: "nxgraph \<Rightarrow> py_error + (nat \<times> nat \<times> real) list" where
  "edges_positive gr =
     map_sum id remdups
       (map_err (\<lambda>(a, b, x). case n2i gr a of Inl e \<Rightarrow> Inl e
                  | Inr i \<Rightarrow> (case n2i gr b of Inl e \<Rightarrow> Inl e | Inr j \<Rightarrow> Inr (i, j, x)))
          (concat (map (\<lambda>(a, b, w). case w of Val x \<Rightarrow> (if 0 \<le> x then [(a, b, x)] else []) | NaN \<Rightarrow> [])
                     (g_edges gr))))"

definition edges_negative :: "nxgraph \<Rightarrow> py_error + (nat \<times> nat \<times> real) list" where
  "edges_negative gr =
     map_sum id remdups
       (map_err (\<lambda>(a, b, x). case n2i gr a of Inl e \<Rightarrow> Inl e
                  | Inr i \<Rightarrow> (case n2i gr b of Inl e \<Rightarrow> Inl e | Inr j \<Rightarrow> Inr (i, j, x)))
          (concat (map (\<lambda>(a, b, w). case w of Val x \<Rightarrow> (if x < 0 then [(a, b, x)] else []) | NaN \<Rightarrow> [])
                     (g_edges gr))))"

text \<open>The two comprehensions of \<open>conflict_loss\<close>; \<open>state[i]\<close> raises IndexError beyond the
  end of the state.\<close>

fun loss_pos_terms :: "nat list \<Rightarrow> (nat \<times> nat \<times> real) list \<Rightarrow> py_error + real list" where
  "loss_pos_terms state [] = Inr []"
| "loss_pos_terms state ((i, j, w) # es) =
     (if i < length state \<and> j < length state
      then (case loss_pos_terms state es of
              Inl e \<Rightarrow> Inl e
            | Inr ws \<Rightarrow> Inr (if state ! i \<noteq> state ! j then w # ws else ws))
      else Inl IndexError)"

fun loss_neg_terms :: "nat list \<Rightarrow> (nat \<times> nat \<times> real) list \<Rightarrow> py_error + real list" where
  "loss_neg_terms state [] = Inr []"
| "loss_neg_terms state ((i, j, w) # es) =
     (if i < length state \<and> j < length state
      then (case loss_neg_terms state es of
              Inl e \<Rightarrow> Inl e
            | Inr ws \<Rightarrow> Inr (if state ! i = state ! j then \<bar>w\<bar> # ws else ws))
      else Inl IndexError)"

definition conflict_loss ::
  "(nat \<times> nat \<times> real) list \<Rightarrow> (nat \<times> nat \<times> real) list \<Rightarrow> nat list \<Rightarrow> py_error + real" where
  "conflict_loss edges_pos edges_neg state =
     (case loss_pos_terms state edges_pos of
        Inl e \<Rightarrow> Inl e
      | Inr ps \<Rightarrow>
          (case loss_neg_terms state edges_neg of
             Inl e \<Rightarrow> Inl e
           | Inr ns \<Rightarrow> Inr (sum_list ps + sum_list ns)))"

text \<open>
  \<open>mlrose.simulated_annealing\<close> is a parameter of the model: given the fitness function,
  the length of the state, \<open>max_val\<close>, the optional initial state, \<open>max_attempts\<close>,
  \<open>max_iters\<close> and the generator state, it returns a state with its fitness, or raises.
\<close>

type_synonym annealer =
  "(nat list \<Rightarrow> py_error + real) \<Rightarrow> nat \<Rightarrow> int \<Rightarrow> nat list option \<Rightarrow> int \<Rightarrow> int \<Rightarrow> rng
     \<Rightarrow> py_error + ((nat list \<times> real) \<times> rng)"

text \<open>
  The loop \<open>for n in range(2, s)\<close>.  The dictionary \<open>l2s\<close> from a loss to the list of
  its states is the list of the entries (loss, state, max\_val) in the order of insertion.
\<close>

fun anneal_rounds ::
  "annealer \<Rightarrow> (nat list \<Rightarrow> py_error + real) \<Rightarrow> nat \<Rightarrow> nat \<Rightarrow> nat list \<Rightarrow> int \<Rightarrow> int
     \<Rightarrow> int list \<Rightarrow> (real \<times> nat list \<times> int) list \<Rightarrow> rng
     \<Rightarrow> py_error + ((real \<times> nat list \<times> int) list \<times> rng)" where
  "anneal_rounds sa fitness len len_classes init_state max_attempts max_iters [] l2s r = Inr (l2s, r)"
| "anneal_rounds sa fitness len len_classes init_state max_attempts max_iters (n # ns) l2s r =
     (case sa fitness len (max n (int len_classes)) (Some init_state) max_attempts max_iters r of
        Inl e \<Rightarrow> Inl e
      | Inr ((best_state, best_fitness), r1) \<Rightarrow>
          (case sa fitness len n None max_attempts max_iters r1 of
             Inl e \<Rightarrow> Inl e
           | Inr ((best_state', best_fitness'), r2) \<Rightarrow>
               anneal_rounds sa fitness len len_classes init_state max_attempts max_iters ns
                 (l2s @ [(best_fitness, best_state, max n (int len_classes)),
                         (best_fitness', best_state', n)]) r2))"

text \<open>The clusters of a state: \<open>c2n[c].append(i2n[i])\<close> for every position, the clusters in
  the order of their first member; KeyError for a position that is not a node's.\<close>

definition first_occurrences :: "'a list \<Rightarrow> 'a list" where
  "first_occurrences xs = rev (remdups (rev xs))"

definition classes_of_state :: "nxgraph \<Rightarrow> nat list \<Rightarrow> py_error + int list list" where
  "classes_of_state gr state =
     (if length (g_nodes gr) < length state then Inl KeyError
      else Inr (map (\<lambda>c. map (\<lambda>i. g_nodes gr ! i) (filter (\<lambda>i. state ! i = c) [0..<length state]))
                  (first_occurrences state)))"

definition sort_by_size :: "int list list \<Rightarrow> int list list" where
  "sort_by_size classes = sort_key (\<lambda>x. - int (length x)) classes"

text \<open>The part of \<open>cluster_correlation_search\<close> before the test \<open>loss_init == 0.0\<close>: the
  two edge sets, the initial state and its loss.\<close>

definition search_prepare ::
  "nxgraph \<Rightarrow> int list list
     \<Rightarrow> py_error + ((nat \<times> nat \<times> real) list \<times> (nat \<times> nat \<times> real) list \<times> nat list \<times> real)" where
  "search_prepare gr classes =
     (case n2c_items gr classes of Inl e \<Rightarrow> Inl e | Inr items \<Rightarrow>
        (case edges_positive gr of Inl e \<Rightarrow> Inl e | Inr edges_pos \<Rightarrow>
           (case edges_negative gr of Inl e \<Rightarrow> Inl e | Inr edges_neg \<Rightarrow>
              (let init_state = init_state_of items
               in case conflict_loss edges_pos edges_neg init_state of
                    Inl e \<Rightarrow> Inl e
                  | Inr loss_init \<Rightarrow> Inr (edges_pos, edges_neg, init_state, loss_init)))))"

text \<open>The part after the test, up to \<open>classes = [set(c2n[c]) for c in c2n]\<close>: the annealing
  rounds, the choice among the states of least loss and the clusters of the chosen state.\<close>

definition anneal_and_select ::
  "annealer \<Rightarrow> nxgraph \<Rightarrow> int \<Rightarrow> int \<Rightarrow> int \<Rightarrow> int list list
     \<Rightarrow> (nat \<times> nat \<times> real) list \<times> (nat \<times> nat \<times> real) list \<times> nat list \<times> real \<Rightarrow> rng
     \<Rightarrow> py_error + (int list list \<times> rng)" where
  "anneal_and_select sa gr s max_attempts max_iters classes prep r =
     (case prep of (edges_pos, edges_neg, init_state, loss_init) \<Rightarrow>
        (case anneal_rounds sa (conflict_loss edges_pos edges_neg) (length (g_nodes gr))
                (length classes) init_state max_attempts max_iters [2..s - 1]
                [(loss_init, init_state, int (length classes))] r of
           Inl e \<Rightarrow> Inl e
         | Inr (l2s, r1) \<Rightarrow>
             (let best_fitness = min_list (map fst l2s);
                  candidates = filter (\<lambda>(l, st, mv). l = best_fitness) l2s
              in case random_choice [0..<length candidates] r1 of
                   Inl e \<Rightarrow> Inl e
                 | Inr (idx, r2) \<Rightarrow>
                     (let best_state = fst (snd (candidates ! idx))
                      in case classes_of_state gr best_state of
                           Inl e \<Rightarrow> Inl e
                         | Inr classes' \<Rightarrow> Inr (classes', r2)))))"

definition cluster_correlation_search ::
  "annealer \<Rightarrow> nxgraph \<Rightarrow> int \<Rightarrow> int \<Rightarrow> int \<Rightarrow> int list list \<Rightarrow> bool \<Rightarrow> rng
     \<Rightarrow> py_error + (int list list \<times> rng)" where
  "cluster_correlation_search sa gr s max_attempts max_iters initial split_flag r =
     (let classes = (if initial = [] then cluster_connected_components gr else initial)
      in case search_prepare gr classes of
           Inl e \<Rightarrow> Inl e
         | Inr (edges_pos, edges_neg, init_state, loss_init) \<Rightarrow>
             if loss_init = 0 then Inr (sort_by_size classes, r)
             else
               (case anneal_and_select sa gr s max_attempts max_iters classes
                       (edges_pos, edges_neg, init_state, loss_init) r of
                  Inl e \<Rightarrow> Inl e
                | Inr (classes', r2) \<Rightarrow>
                    if split_flag
                    then (case split_non_evidence_clusters gr classes' of
                            Inl e \<Rightarrow> Inl e
                          | Inr classes'' \<Rightarrow> Inr (sort_by_size classes'', r2))
                    else Inr (sort_by_size classes', r2)))"

subsection \<open>Notions used to state the clusterer's properties\<close>

text \<open>Two nodes are adjacent in an edge list; they are joined by an edge of non-negative
  weight inside a set of nodes; a cluster is connected by such edges.\<close>

definition nx_adjacent :: "(int \<times> int \<times> weight) list \<Rightarrow> (int \<times> int) set" where
  "nx_adjacent es = {(a, b). \<exists>w. (a, b, w) \<in> set es \<or> (b, a, w) \<in> set es}"

definition pos_adjacent :: "nxgraph \<Rightarrow> int set \<Rightarrow> (int \<times> int) set" where
  "pos_adjacent gr C =
     {(a, b). a \<in> C \<and> b \<in> C \<and>
        (\<exists>w. wge0 w \<and> ((a, b, w) \<in> set (g_edges gr) \<or> (b, a, w) \<in> set (g_edges gr)))}"

definition pos_connected :: "nxgraph \<Rightarrow> int list \<Rightarrow> bool" where
  "pos_connected gr C \<longleftrightarrow> (\<forall>a\<in>set C. \<forall>b\<in>set C. (a, b) \<in> (pos_adjacent gr (set C))\<^sup>*)"

text \<open>
  The loss of a clustering as the specification words it: the sum of \<open>w\<close> over the
  edges with \<open>w \<ge> 0\<close> whose endpoints are in different clusters, plus the sum of
  \<open>|w|\<close> over the edges with \<open>w < 0\<close> whose endpoints are in the same cluster.
\<close>

definition same_cluster :: "int list list \<Rightarrow> int \<Rightarrow> int \<Rightarrow> bool" where
  "same_cluster classes a b = list_ex (\<lambda>C. a \<in> set C \<and> b \<in> set C) classes"

definition spec_loss :: "nxgraph \<Rightarrow> int list list \<Rightarrow> real" where
  "spec_loss gr classes =
     sum_list (concat (map (\<lambda>(a, b, w). case w of
                   Val x \<Rightarrow> (if 0 \<le> x \<and> \<not> same_cluster classes a b then [x] else [])
                 | NaN \<Rightarrow> []) (g_edges gr)))
     + sum_list (concat (map (\<lambda>(a, b, w). case w of
                   Val x \<Rightarrow> (if x < 0 \<and> same_cluster classes a b then [\<bar>x\<bar>] else [])
                 | NaN \<Rightarrow> []) (g_edges gr)))"

text \<open>A networkx graph has every node once, both endpoints of an edge among its nodes, and
  one edge for an unordered pair; a clustering of it has every node in exactly one
  cluster.\<close>

definition wf_graph :: "nxgraph \<Rightarrow> bool" where
  "wf_graph gr \<longleftrightarrow>
     distinct (g_nodes gr)
     \<and> list_all (\<lambda>(a, b, w). a \<in> set (g_nodes gr) \<and> b \<in> set (g_nodes gr)) (g_edges gr)
     \<and> distinct (map (\<lambda>(a, b, w). (a, b)) (g_edges gr))"

definition is_clustering :: "nxgraph \<Rightarrow> int list list \<Rightarrow> bool" where
  "is_clustering gr classes \<longleftrightarrow>
     distinct (concat classes) \<and> set (concat classes) = set (g_nodes gr)"

subsection \<open>Notions used to state the sampler's properties\<close>




text \<open>The position of a node of the graph, and the pairs (cluster number, node) in the order
  in which the comprehension for \<open>n2c\<close> meets them, numbering from \<open>n\<close>.\<close>

definition the_index :: "int list \<Rightarrow> int \<Rightarrow> nat" where
  "the_index ns a = (case index_of ns a of None \<Rightarrow> 0 | Some i \<Rightarrow> i)"

definition flat_from :: "nat \<Rightarrow> int list list \<Rightarrow> (nat \<times> int) list" where
  "flat_from n classes = concat (map (\<lambda>(i, cluster). map (Pair i) cluster) (enumerate n classes))"

section \<open>Properties of the annotated graph\<close>

subsection \<open>Medians and histories\<close>

lemma numeric_append: "numeric (xs @ ys) = numeric xs @ numeric ys"
  by (induction xs rule: numeric.induct) auto

lemma isnan_nanmedian: "isnan (nanmedian ws) \<longleftrightarrow> numeric ws = []"
  by (simp add: nanmedian_def)

lemma add_edge_missing:
  assumes "numeric ((case edge_added_weights g (min u v, max u v) of None \<Rightarrow> [] | Some h \<Rightarrow> h)) = []"
    and "w = NaN \<or> w = Val 0"
  shows "add_edge u v w g =
     g\<lparr>edge_added_weights := (edge_added_weights g)((min u v, max u v) \<mapsto>
          (case edge_added_weights g (min u v, max u v) of None \<Rightarrow> [] | Some h \<Rightarrow> h) @ [NaN]),
       last_edge := Some (u, v), judgements := judgements g + 1\<rparr>"
  using assms by (auto simp add: add_edge_def Let_def isnan_nanmedian numeric_append)

lemma weights_consistent_init: "weights_consistent (AnnotatedGraph n)"
  by (simp add: weights_consistent_def AnnotatedGraph_def)

lemma weights_consistent_add_edge:
  "weights_consistent g \<Longrightarrow> weights_consistent (add_edge u v w g)"
  unfolding weights_consistent_def add_edge_def Let_def
  by (auto simp: isnan_nanmedian nanmedian_def numeric_append split: option.splits)

lemma weights_consistent_add_edges:
  "weights_consistent g \<Longrightarrow> weights_consistent (add_edges js g)"
  by (induction js g rule: add_edges.induct) (auto simp: weights_consistent_add_edge)

text \<open>
  Claim C1, as amended.  Recording the missing judgement (NaN) for the pair (2,3) three
  times on an empty annotated graph materializes no edge: \<open>edge_weight\<close>,
  \<open>edge_soft_weight\<close> and the networkx graph stay empty, \<open>last_edge\<close> is (2,3) and
  \<open>judgements\<close> is 3.  But \<open>get_edge(2,3)\<close> returns 0, not None: the all-NaN history
  is registered under the key, and \<open>get_edge\<close> maps a NaN median to 0.
\<close>

theorem all_missing_scenario:
  "get_edge (add_edges [(2, 3, NaN), (2, 3, NaN), (2, 3, NaN)] (AnnotatedGraph n)) 2 3 = Some (Val 0)
   \<and> edge_weight (add_edges [(2, 3, NaN), (2, 3, NaN), (2, 3, NaN)] (AnnotatedGraph n)) (2, 3) = None
   \<and> edge_soft_weight (add_edges [(2, 3, NaN), (2, 3, NaN), (2, 3, NaN)] (AnnotatedGraph n)) (2, 3) = None
   \<and> G (add_edges [(2, 3, NaN), (2, 3, NaN), (2, 3, NaN)] (AnnotatedGraph n)) = nx_empty
   \<and> get_last_added_edge (add_edges [(2, 3, NaN), (2, 3, NaN), (2, 3, NaN)] (AnnotatedGraph n)) = Some (2, 3)
   \<and> get_num_added_edges (add_edges [(2, 3, NaN), (2, 3, NaN), (2, 3, NaN)] (AnnotatedGraph n)) = 3"
  by (simp add: add_edge_def AnnotatedGraph_def nanmedian_def Let_def get_edge_def
      get_last_added_edge_def get_num_added_edges_def)

text \<open>Claim C1 as stated fails: after the three missing judgements \<open>get_edge(2,3)\<close> is not None.\<close>

theorem all_missing_get_edge_counterexample:
  "get_edge (add_edges [(2, 3, NaN), (2, 3, NaN), (2, 3, NaN)] (AnnotatedGraph 4)) 2 3 \<noteq> None"
  by (simp add: add_edge_def AnnotatedGraph_def nanmedian_def Let_def get_edge_def)

text \<open>
  Claim C2.  After any sequence of judgement appends to an empty annotated graph, for
  every key the current weight is the median of the numeric (non-NaN) entries of the
  key's history and the soft weight is that median minus 2.5 (no weight is stored when
  there is no numeric entry).  In particular, after (0,1,3), (0,1,4), (0,1,NaN), (0,1,1)
  the weight of (0,1) is 3, its soft weight is 0.5 and \<open>judgements\<close> is 4.
\<close>

theorem current_weight_is_median:
  "edge_weight (add_edges js (AnnotatedGraph n)) e =
       (case edge_added_weights (add_edges js (AnnotatedGraph n)) e of None \<Rightarrow> None
        | Some h \<Rightarrow> if numeric h = [] then None else Some (Val (median (numeric h))))
   \<and> edge_soft_weight (add_edges js (AnnotatedGraph n)) e =
       (case edge_added_weights (add_edges js (AnnotatedGraph n)) e of None \<Rightarrow> None
        | Some h \<Rightarrow> if numeric h = [] then None else Some (Val (median (numeric h) - 5 / 2)))
   \<and> edge_weight (add_edges [(0, 1, Val 3), (0, 1, Val 4), (0, 1, NaN), (0, 1, Val 1)]
         (AnnotatedGraph m)) (0, 1) = Some (Val 3)
   \<and> edge_soft_weight (add_edges [(0, 1, Val 3), (0, 1, Val 4), (0, 1, NaN), (0, 1, Val 1)]
         (AnnotatedGraph m)) (0, 1) = Some (Val (1 / 2))
   \<and> get_num_added_edges (add_edges [(0, 1, Val 3), (0, 1, Val 4), (0, 1, NaN), (0, 1, Val 1)]
         (AnnotatedGraph m)) = 4"
proof -
  have "weights_consistent (add_edges js (AnnotatedGraph n))"
    by (rule weights_consistent_add_edges [OF weights_consistent_init])
  then have general:
    "edge_weight (add_edges js (AnnotatedGraph n)) e =
       (case edge_added_weights (add_edges js (AnnotatedGraph n)) e of None \<Rightarrow> None
        | Some h \<Rightarrow> if numeric h = [] then None else Some (Val (median (numeric h))))"
    "edge_soft_weight (add_edges js (AnnotatedGraph n)) e =
       (case edge_added_weights (add_edges js (AnnotatedGraph n)) e of None \<Rightarrow> None
        | Some h \<Rightarrow> if numeric h = [] then None else Some (Val (median (numeric h) - 5 / 2)))"
    unfolding weights_consistent_def by blast+
  have scenario:
    "edge_weight (add_edges [(0, 1, Val 3), (0, 1, Val 4), (0, 1, NaN), (0, 1, Val 1)]
         (AnnotatedGraph m)) (0, 1) = Some (Val 3)
     \<and> edge_soft_weight (add_edges [(0, 1, Val 3), (0, 1, Val 4), (0, 1, NaN), (0, 1, Val 1)]
         (AnnotatedGraph m)) (0, 1) = Some (Val (1 / 2))
     \<and> get_num_added_edges (add_edges [(0, 1, Val 3), (0, 1, Val 4), (0, 1, NaN), (0, 1, Val 1)]
         (AnnotatedGraph m)) = 4"
    by (simp add: add_edge_def AnnotatedGraph_def nanmedian_def median_def Let_def
        get_num_added_edges_def)
  show ?thesis using general scenario by blast
qed

theorem current_weight_is_median_witness:
  "edge_added_weights (add_edges [(0, 1, Val 3), (1, 0, Val 2)] (AnnotatedGraph 2)) (0, 1)
      = Some [Val 3, Val 2]
   \<and> edge_weight (add_edges [(0, 1, Val 3), (1, 0, Val 2)] (AnnotatedGraph 2)) (0, 1)
      = Some (Val (median [3, 2]))
   \<and> edge_soft_weight (add_edges [(0, 1, Val 3), (1, 0, Val 2)] (AnnotatedGraph 2)) (0, 1)
      = Some (Val (median [3, 2] - 5 / 2))"
proof -
  have h: "edge_added_weights (add_edges [(0, 1, Val 3), (1, 0, Val 2)] (AnnotatedGraph 2)) (0, 1)
      = Some [Val 3, Val 2]"
    by (simp add: add_edge_def AnnotatedGraph_def nanmedian_def Let_def)
  show ?thesis
    using current_weight_is_median [of "[(0, 1, Val 3), (1, 0, Val 2)]" 2 "(0, 1)" 2] h
    by simp
qed

subsection \<open>Equal endpoints\<close>

text \<open>
  Claim C8, as amended.  \<open>add_edge\<close> has no check for equal endpoints: a judgement for
  the pair (u,u) is recorded like any other.  It is appended to the history of the key
  (u,u), \<open>judgements\<close> grows by one, \<open>last_edge\<close> becomes (u,u), and when the median of
  the history is numeric a self-loop is materialized in the weight dictionary and in the
  networkx graph.
\<close>

theorem self_loop_recorded:
  "edge_added_weights (add_edge u u w g) (u, u)
      = Some ((case edge_added_weights g (u, u) of None \<Rightarrow> [] | Some h \<Rightarrow> h)
              @ [if w \<noteq> Val 0 then w else NaN])
   \<and> judgements (add_edge u u w g) = judgements g + 1
   \<and> last_edge (add_edge u u w g) = Some (u, u)
   \<and> (\<forall>x. w = Val x \<and> x \<noteq> 0 \<longrightarrow>
         edge_weight (add_edge u u w g) (u, u) =
           Some (nanmedian ((case edge_added_weights g (u, u) of None \<Rightarrow> [] | Some h \<Rightarrow> h) @ [w]))
       \<and> (\<exists>m. (u, u, m) \<in> set (g_edges (G (add_edge u u w g)))))"
proof -
  have set_edge: "\<exists>m. (a, a, m) \<in> set (nx_set_edge a a x es)" for a x es
    by (induction es) auto
  show ?thesis
    using set_edge
    by (auto simp add: add_edge_def Let_def isnan_nanmedian numeric_append add_weighted_edge_def)
qed

theorem self_loop_recorded_witness:
  "edge_added_weights (add_edge 1 1 (Val 3) (AnnotatedGraph 2)) (1, 1) = Some [Val 3]
   \<and> judgements (add_edge 1 1 (Val 3) (AnnotatedGraph 2)) = 1
   \<and> last_edge (add_edge 1 1 (Val 3) (AnnotatedGraph 2)) = Some (1, 1)
   \<and> edge_weight (add_edge 1 1 (Val 3) (AnnotatedGraph 2)) (1, 1) = Some (nanmedian [Val 3])
   \<and> (\<exists>m. (1, 1, m) \<in> set (g_edges (G (add_edge 1 1 (Val 3) (AnnotatedGraph 2)))))"
proof -
  have e: "edge_added_weights (AnnotatedGraph 2) (1, 1) = None"
    by (simp add: AnnotatedGraph_def)
  show ?thesis
    using self_loop_recorded [of 1 "Val 3" "AnnotatedGraph 2"] e
    by (simp add: AnnotatedGraph_def)
qed

text \<open>Claim C8 as stated fails: the judgement 3 for the pair (1,1) puts the self-loop
  (1,1) with weight 3 into the weight dictionary and into the networkx graph.\<close>

theorem self_loop_counterexample:
  "edge_weight (add_edge 1 1 (Val 3) (AnnotatedGraph 2)) (1, 1) = Some (Val 3)
   \<and> g_edges (G (add_edge 1 1 (Val 3) (AnnotatedGraph 2))) = [(1, 1, Val 3)]"
  by (simp add: add_edge_def Let_def nanmedian_def median_def AnnotatedGraph_def
      add_weighted_edge_def nx_empty_def)

subsection \<open>Endpoint order\<close>

lemma add_edge_last_edge_irrelevant:
  "add_edge a b y (g\<lparr>last_edge := l\<rparr>) = add_edge a b y g"
  by (simp add: add_edge_def Let_def)

lemma min_min_max:
  "min (min u v) (max u v) = min u (v::int)" "max (min u v) (max u v) = max u (v::int)"
  by auto

lemma add_edge_canonical:
  "add_edge u v w g = (add_edge (min u v) (max u v) w g)\<lparr>last_edge := Some (u, v)\<rparr>"
  by (simp add: add_edge_def Let_def min_min_max)

text \<open>
  Claim C9, as amended.  Recording (u,v,x) and then (v,u,y) gives the state that
  recording both judgements under the sorted pair gives (same histories, weights, soft
  weights, reverse index, networkx graph and judgement count), except for \<open>last_edge\<close>:
  it holds the endpoints as the last call passed them, (v,u), not the sorted pair.
\<close>

theorem endpoint_order_only_in_last_edge:
  "add_edge v u y (add_edge u v x g) =
     (add_edge (min u v) (max u v) y (add_edge (min u v) (max u v) x g))\<lparr>last_edge := Some (v, u)\<rparr>"
proof -
  have "add_edge v u y (add_edge u v x g)
      = (add_edge (min v u) (max v u) y (add_edge u v x g))\<lparr>last_edge := Some (v, u)\<rparr>"
    by (rule add_edge_canonical)
  also have "add_edge (min v u) (max v u) y (add_edge u v x g)
      = add_edge (min v u) (max v u) y
          ((add_edge (min u v) (max u v) x g)\<lparr>last_edge := Some (u, v)\<rparr>)"
    by (rule arg_cong [OF add_edge_canonical])
  also have "\<dots> = add_edge (min u v) (max u v) y (add_edge (min u v) (max u v) x g)"
    by (simp only: add_edge_last_edge_irrelevant min.commute [of v u] max.commute [of v u])
  finally show ?thesis .
qed

text \<open>Claim C9 as stated fails: after (0,1,3) and (1,0,4) the last edge read back is (1,0),
  after the same judgements in sorted order it is (0,1).\<close>

theorem endpoint_order_counterexample:
  "get_last_added_edge (add_edge 1 0 (Val 4) (add_edge 0 1 (Val 3) (AnnotatedGraph 2)))
     \<noteq> get_last_added_edge (add_edge 0 1 (Val 4) (add_edge 0 1 (Val 3) (AnnotatedGraph 2)))"
  by (simp add: add_edge_def Let_def get_last_added_edge_def nanmedian_def)

subsection \<open>The judgement 0\<close>

lemma add_edges_zeros:
  assumes "numeric ((case edge_added_weights g (min u v, max u v) of None \<Rightarrow> [] | Some h \<Rightarrow> h)) = []"
  shows "edge_weight (add_edges (replicate k (u, v, Val 0)) g) = edge_weight g
       \<and> edge_soft_weight (add_edges (replicate k (u, v, Val 0)) g) = edge_soft_weight g
       \<and> G (add_edges (replicate k (u, v, Val 0)) g) = G g
       \<and> judgements (add_edges (replicate k (u, v, Val 0)) g) = judgements g + k
       \<and> (case edge_added_weights (add_edges (replicate k (u, v, Val 0)) g) (min u v, max u v)
            of None \<Rightarrow> [] | Some h \<Rightarrow> h)
          = (case edge_added_weights g (min u v, max u v) of None \<Rightarrow> [] | Some h \<Rightarrow> h) @ replicate k NaN"
  using assms
proof (induction k arbitrary: g)
  case 0
  then show ?case by simp
next
  case (Suc k)
  let ?g1 = "add_edge u v (Val 0) g"
  have g1: "?g1 = g\<lparr>edge_added_weights := (edge_added_weights g)((min u v, max u v) \<mapsto>
          (case edge_added_weights g (min u v, max u v) of None \<Rightarrow> [] | Some h \<Rightarrow> h) @ [NaN]),
       last_edge := Some (u, v), judgements := judgements g + 1\<rparr>"
    using Suc.prems by (simp add: add_edge_missing)
  have n1: "numeric ((case edge_added_weights ?g1 (min u v, max u v) of None \<Rightarrow> [] | Some h \<Rightarrow> h)) = []"
    using Suc.prems by (simp add: g1 numeric_append)
  show ?case
    using Suc.IH [OF n1] by (simp add: g1 replicate_app_Cons_same)
qed

text \<open>
  Claim C10.  For distinct nodes u and v, \<open>add_edge\<close> treats the judgement 0 as
  missing: the call has the effect of the call with NaN, the history receives NaN, the
  numeric entries of the history (what the median is taken of) do not change, and after
  k zeros on an empty graph no weight is materialized for the pair while \<open>judgements\<close>
  is k and the history is k times NaN.
\<close>

theorem zero_judgement_is_missing:
  "u \<noteq> v \<Longrightarrow>
     add_edge u v (Val 0) g = add_edge u v NaN g
   \<and> edge_added_weights (add_edge u v (Val 0) g) (min u v, max u v)
       = Some ((case edge_added_weights g (min u v, max u v) of None \<Rightarrow> [] | Some h \<Rightarrow> h) @ [NaN])
   \<and> numeric ((case edge_added_weights g (min u v, max u v) of None \<Rightarrow> [] | Some h \<Rightarrow> h) @ [NaN])
       = numeric (case edge_added_weights g (min u v, max u v) of None \<Rightarrow> [] | Some h \<Rightarrow> h)
   \<and> edge_weight (add_edges (replicate k (u, v, Val 0)) (AnnotatedGraph n)) (min u v, max u v) = None
   \<and> edge_soft_weight (add_edges (replicate k (u, v, Val 0)) (AnnotatedGraph n)) (min u v, max u v) = None
   \<and> g_edges (G (add_edges (replicate k (u, v, Val 0)) (AnnotatedGraph n))) = []
   \<and> (case edge_added_weights (add_edges (replicate k (u, v, Val 0)) (AnnotatedGraph n))
             (min u v, max u v) of None \<Rightarrow> [] | Some h \<Rightarrow> h) = replicate k NaN
   \<and> get_num_added_edges (add_edges (replicate k (u, v, Val 0)) (AnnotatedGraph n)) = k"
proof -
  have e: "numeric ((case edge_added_weights (AnnotatedGraph n) (min u v, max u v)
                      of None \<Rightarrow> [] | Some h \<Rightarrow> h)) = []"
    by (simp add: AnnotatedGraph_def)
  have a: "add_edge u v (Val 0) g = add_edge u v NaN g"
    by (simp add: add_edge_def)
  have b: "edge_added_weights (add_edge u v (Val 0) g) (min u v, max u v)
       = Some ((case edge_added_weights g (min u v, max u v) of None \<Rightarrow> [] | Some h \<Rightarrow> h) @ [NaN])"
    by (simp add: add_edge_def Let_def)
  have c: "numeric (h @ [NaN]) = numeric h" for h
    by (simp add: numeric_append)
  show ?thesis
    using add_edges_zeros [OF e, of k] a b c
    by (simp add: AnnotatedGraph_def nx_empty_def get_num_added_edges_def)
qed

theorem zero_judgement_is_missing_witness:
  "(0::int) \<noteq> 1
   \<and> add_edge 0 1 (Val 0) (AnnotatedGraph 2) = add_edge 0 1 NaN (AnnotatedGraph 2)
   \<and> edge_added_weights (add_edge 0 1 (Val 0) (AnnotatedGraph 2)) (0, 1) = Some [NaN]
   \<and> edge_weight (add_edges (replicate 2 (0, 1, Val 0)) (AnnotatedGraph 2)) (0, 1) = None
   \<and> get_num_added_edges (add_edges (replicate 2 (0, 1, Val 0)) (AnnotatedGraph 2)) = 2"
proof -
  have h: "(0::int) \<noteq> 1" by simp
  have e: "edge_added_weights (AnnotatedGraph 2) (0, 1) = None"
    by (simp add: AnnotatedGraph_def)
  show ?thesis
    using zero_judgement_is_missing [OF h, of "AnnotatedGraph 2" 2 2] e by auto
qed

subsection \<open>Cluster labels\<close>

lemma list_set_in_range:
  "0 \<le> i \<Longrightarrow> i < int (length xs) \<Longrightarrow> list_set xs i v = Inr (xs[nat i := v])"
  by (simp add: list_set_def)

lemma label_cluster_ok:
  "\<forall>n\<in>set ns. 0 \<le> n \<and> n < int (length ls) \<Longrightarrow>
   \<exists>ls'. label_cluster k ns ls = Inr ls' \<and> length ls' = length ls
        \<and> (\<forall>i<length ls. ls' ! i = (if int i \<in> set ns then k else ls ! i))"
proof (induction ns arbitrary: ls)
  case Nil
  then show ?case by simp
next
  case (Cons a ns)
  then have a: "0 \<le> a" "a < int (length ls)" by auto
  let ?l1 = "ls[nat a := k]"
  from Cons.prems have "\<forall>n\<in>set ns. 0 \<le> n \<and> n < int (length ?l1)" by simp
  from Cons.IH [OF this] obtain ls' where
    r: "label_cluster k ns ?l1 = Inr ls'" "length ls' = length ?l1"
      "\<forall>i<length ?l1. ls' ! i = (if int i \<in> set ns then k else ?l1 ! i)" by blast
  have "label_cluster k (a # ns) ls = Inr ls'"
    using a r(1) by (simp add: list_set_in_range)
  moreover have "length ls' = length ls" using r(2) by simp
  moreover have "\<forall>i<length ls. ls' ! i = (if int i \<in> set (a # ns) then k else ls ! i)"
  proof (intro allI impI)
    fix i assume i: "i < length ls"
    then have "ls' ! i = (if int i \<in> set ns then k else ?l1 ! i)" using r(3) by simp
    moreover have "?l1 ! i = (if int i = a then k else ls ! i)"
      using i a by (auto simp: nth_list_update)
    ultimately show "ls' ! i = (if int i \<in> set (a # ns) then k else ls ! i)" by auto
  qed
  ultimately show ?case by blast
qed

lemma label_clusters_ok:
  "\<forall>(k, ns)\<in>set cs. \<forall>n\<in>set ns. 0 \<le> n \<and> n < int (length ls) \<Longrightarrow>
   \<exists>ls'. label_clusters cs ls = Inr ls' \<and> length ls' = length ls
        \<and> (\<forall>i<length ls. ls' ! i =
              (if cluster_ids_of cs (int i) = [] then ls ! i else last (cluster_ids_of cs (int i))))"
proof (induction cs arbitrary: ls)
  case Nil
  then show ?case by (simp add: cluster_ids_of_def)
next
  case (Cons c cs)
  obtain k ns where c: "c = (k, ns)" by (cases c)
  from Cons.prems c have "\<forall>n\<in>set ns. 0 \<le> n \<and> n < int (length ls)" by auto
  from label_cluster_ok [OF this, of k] obtain l1 where
    l1: "label_cluster k ns ls = Inr l1" "length l1 = length ls"
      "\<forall>i<length ls. l1 ! i = (if int i \<in> set ns then k else ls ! i)" by blast
  from Cons.prems l1(2) have "\<forall>(k, ns)\<in>set cs. \<forall>n\<in>set ns. 0 \<le> n \<and> n < int (length l1)" by auto
  from Cons.IH [OF this] obtain ls' where
    r: "label_clusters cs l1 = Inr ls'" "length ls' = length l1"
      "\<forall>i<length l1. ls' ! i =
          (if cluster_ids_of cs (int i) = [] then l1 ! i else last (cluster_ids_of cs (int i)))" by blast
  have "label_clusters (c # cs) ls = Inr ls'" using c l1(1) r(1) by simp
  moreover have "length ls' = length ls" using r(2) l1(2) by simp
  moreover have "\<forall>i<length ls. ls' ! i =
        (if cluster_ids_of (c # cs) (int i) = [] then ls ! i else last (cluster_ids_of (c # cs) (int i)))"
    using r(3) l1(2,3) c by (auto simp: cluster_ids_of_def)
  ultimately show ?case by blast
qed

lemma last_cluster_ids_of:
  "cluster_ids_of cs n \<noteq> [] \<Longrightarrow> \<exists>ns. (last (cluster_ids_of cs n), ns) \<in> set cs \<and> n \<in> set ns"
proof -
  assume "cluster_ids_of cs n \<noteq> []"
  then have "last (cluster_ids_of cs n) \<in> set (cluster_ids_of cs n)" by (rule last_in_set)
  then show ?thesis by (auto simp: cluster_ids_of_def)
qed

text \<open>
  Claim C7, as amended.  When every node of the new mapping is an index of the label
  list, \<open>update_community_nodes_membership\<close> succeeds, replaces \<open>community_nodes\<close> by
  the mapping, gives every node mentioned in some cluster the id of a cluster that
  mentions it (the last one in the mapping's order, so a label \<open>\<ge> 0\<close> when the ids
  are), and leaves every node that is not mentioned with the label it had before the
  call: the labels are not reset, so such a node has label -1 only if it had it before.
\<close>

theorem labels_after_update:
  assumes "\<forall>(k, ns)\<in>set new. \<forall>n\<in>set ns. 0 \<le> n \<and> n < int (length (labels g))"
  shows "\<exists>g'. update_community_nodes_membership new g = Inr g'
     \<and> community_nodes g' = new \<and> length (labels g') = length (labels g)
     \<and> (\<forall>i<length (labels g).
          (cluster_ids_of new (int i) = [] \<longrightarrow> labels g' ! i = labels g ! i)
        \<and> (cluster_ids_of new (int i) \<noteq> [] \<longrightarrow>
             labels g' ! i = last (cluster_ids_of new (int i))
           \<and> (\<exists>ns. (labels g' ! i, ns) \<in> set new \<and> int i \<in> set ns)
           \<and> ((\<forall>(k, ns)\<in>set new. 0 \<le> k) \<longrightarrow> 0 \<le> labels g' ! i)))"
proof -
  from label_clusters_ok [OF assms] obtain ls' where
    r: "label_clusters new (labels g) = Inr ls'" "length ls' = length (labels g)"
      "\<forall>i<length (labels g). ls' ! i =
          (if cluster_ids_of new (int i) = [] then labels g ! i else last (cluster_ids_of new (int i)))"
    by blast
  have "update_community_nodes_membership new g = Inr (g\<lparr>community_nodes := new, labels := ls'\<rparr>)"
    using r(1) by (simp add: update_community_nodes_membership_def
        base_update_community_nodes_membership_def)
  then show ?thesis using r(2,3) last_cluster_ids_of [of new] by fastforce
qed

theorem labels_after_update_witness:
  "length (labels (AnnotatedGraph 4)) = 4
   \<and> (\<exists>g'. update_community_nodes_membership [(0, [0, 2]), (1, [1])] (AnnotatedGraph 4) = Inr g'
          \<and> labels g' ! 0 = 0 \<and> labels g' ! 1 = 1 \<and> labels g' ! 2 = 0 \<and> labels g' ! 3 = - 1)"
proof -
  have h: "\<forall>(k, ns)\<in>set [(0, [0, 2]), (1, [1])]. \<forall>n\<in>set ns.
       0 \<le> n \<and> n < int (length (labels (AnnotatedGraph 4)))"
    by (simp add: AnnotatedGraph_def)
  have l: "length (labels (AnnotatedGraph 4)) = 4" "labels (AnnotatedGraph 4) ! 3 = - 1"
    by (simp_all add: AnnotatedGraph_def)
  from labels_after_update [OF h] obtain g' where
    g': "update_community_nodes_membership [(0, [0, 2]), (1, [1])] (AnnotatedGraph 4) = Inr g'"
      "\<forall>i<length (labels (AnnotatedGraph 4)).
          (cluster_ids_of [(0, [0, 2]), (1, [1])] (int i) = [] \<longrightarrow>
              labels g' ! i = labels (AnnotatedGraph 4) ! i)
        \<and> (cluster_ids_of [(0, [0, 2]), (1, [1])] (int i) \<noteq> [] \<longrightarrow>
              labels g' ! i = last (cluster_ids_of [(0, [0, 2]), (1, [1])] (int i)))"
    by blast
  have "labels g' ! 0 = 0" using g'(2) [rule_format, of 0] l by (simp add: cluster_ids_of_def)
  moreover have "labels g' ! 1 = 1" using g'(2) [rule_format, of 1] l by (simp add: cluster_ids_of_def)
  moreover have "labels g' ! 2 = 0" using g'(2) [rule_format, of 2] l by (simp add: cluster_ids_of_def)
  moreover have "labels g' ! 3 = - 1" using g'(2) [rule_format, of 3] l by (simp add: cluster_ids_of_def)
  ultimately show ?thesis using l(1) g'(1) by blast
qed

text \<open>Claim C7 as stated fails: on a graph of two nodes, after the clustering \<open>{0: [0, 1]}\<close>
  the clustering \<open>{0: [0]}\<close> does not mention node 1, and node 1 keeps label 0, not -1.\<close>

theorem labels_not_reset_counterexample:
  "map_sum id labels
     (bind_err (update_community_nodes_membership [(0, [0, 1])] (AnnotatedGraph 2))
        (update_community_nodes_membership [(0, [0])]))
   = Inr [0, 0]"
  by (simp add: update_community_nodes_membership_def base_update_community_nodes_membership_def
      bind_err_def AnnotatedGraph_def list_set_def numeral_2_eq_2)

section \<open>Properties of the DWUG sampler\<close>

subsection \<open>Random draws and the exploration walk\<close>












subsection \<open>Combination phase\<close>









lemma multi_clusters_nonempty:
  "0 < m \<Longrightarrow> \<forall>C\<in>set (multi_clusters g m). C \<noteq> []"
  by (auto simp: multi_clusters_def)







section \<open>Properties of the correlation clusterer\<close>

subsection \<open>Breadth-first search and connected components\<close>

lemma set_adj: "set (adj es v) = nx_adjacent es `` {v}"
  by (force simp: adj_def nx_adjacent_def split: if_splits)

lemma sym_nx_adjacent: "sym (nx_adjacent es)"
  by (auto simp: sym_def nx_adjacent_def)

lemma set_concat_adj: "set (concat (map (adj es) xs)) = nx_adjacent es `` set xs"
  by (auto simp: set_adj)

lemma plain_bfs_sound:
  "set (plain_bfs es seen level) \<subseteq> set seen \<union> (nx_adjacent es)\<^sup>* `` set level"
proof (induction es seen level rule: plain_bfs.induct)
  case (1 es seen nextlevel)
  show ?case
  proof (cases "nextlevel = []")
    case True
    then show ?thesis by (simp add: plain_bfs.simps)
  next
    case False
    let ?new = "remdups (filter (\<lambda>v. v \<notin> set seen) nextlevel)"
    have eq: "plain_bfs es seen nextlevel = plain_bfs es (seen @ ?new) (concat (map (adj es) ?new))"
      using False by (simp add: plain_bfs.simps [of es seen nextlevel] Let_def)
    have "set (plain_bfs es (seen @ ?new) (concat (map (adj es) ?new)))
          \<subseteq> set (seen @ ?new) \<union> (nx_adjacent es)\<^sup>* `` set (concat (map (adj es) ?new))"
      by (rule "1.IH" [OF False refl])
    then have ih: "set (plain_bfs es (seen @ ?new) (concat (map (adj es) ?new)))
          \<subseteq> set seen \<union> set ?new \<union> (nx_adjacent es)\<^sup>* `` (nx_adjacent es `` set ?new)"
      by (simp only: set_concat_adj set_append)
    have a: "set ?new \<subseteq> set nextlevel" by auto
    have b: "(nx_adjacent es)\<^sup>* `` (nx_adjacent es `` set ?new) \<subseteq> (nx_adjacent es)\<^sup>* `` set nextlevel"
      using a by (auto intro: converse_rtrancl_into_rtrancl)
    have c: "set ?new \<subseteq> (nx_adjacent es)\<^sup>* `` set nextlevel" using a by auto
    show ?thesis unfolding eq using ih b c by blast
  qed
qed

lemma plain_bfs_superset:
  "set seen \<union> set level \<subseteq> set (plain_bfs es seen level)"
proof (induction es seen level rule: plain_bfs.induct)
  case (1 es seen nextlevel)
  show ?case
  proof (cases "nextlevel = []")
    case True
    then show ?thesis by (simp add: plain_bfs.simps)
  next
    case False
    let ?new = "remdups (filter (\<lambda>v. v \<notin> set seen) nextlevel)"
    have eq: "plain_bfs es seen nextlevel = plain_bfs es (seen @ ?new) (concat (map (adj es) ?new))"
      using False by (simp add: plain_bfs.simps [of es seen nextlevel] Let_def)
    have "set (seen @ ?new) \<union> set (concat (map (adj es) ?new))
          \<subseteq> set (plain_bfs es (seen @ ?new) (concat (map (adj es) ?new)))"
      by (rule "1.IH" [OF False refl])
    then have ih: "set seen \<union> set ?new
          \<subseteq> set (plain_bfs es (seen @ ?new) (concat (map (adj es) ?new)))"
      by (simp only: set_append) blast
    have "set nextlevel \<subseteq> set seen \<union> set ?new" by auto
    then show ?thesis unfolding eq using ih by blast
  qed
qed

lemma plain_bfs_closed:
  "\<forall>x\<in>set seen. nx_adjacent es `` {x} \<subseteq> set seen \<union> set level \<Longrightarrow>
   \<forall>x\<in>set (plain_bfs es seen level). nx_adjacent es `` {x} \<subseteq> set (plain_bfs es seen level)"
proof (induction es seen level rule: plain_bfs.induct)
  case (1 es seen nextlevel)
  show ?case
  proof (cases "nextlevel = []")
    case True
    then show ?thesis using "1.prems" by (simp add: plain_bfs.simps)
  next
    case False
    let ?new = "remdups (filter (\<lambda>v. v \<notin> set seen) nextlevel)"
    have eq: "plain_bfs es seen nextlevel = plain_bfs es (seen @ ?new) (concat (map (adj es) ?new))"
      using False by (simp add: plain_bfs.simps [of es seen nextlevel] Let_def)
    have lv: "set nextlevel \<subseteq> set seen \<union> set ?new" by auto
    have inv: "\<forall>x\<in>set (seen @ ?new). nx_adjacent es `` {x}
                 \<subseteq> set (seen @ ?new) \<union> set (concat (map (adj es) ?new))"
    proof
      fix x assume "x \<in> set (seen @ ?new)"
      then consider "x \<in> set seen" | "x \<in> set ?new" by auto
      then show "nx_adjacent es `` {x} \<subseteq> set (seen @ ?new) \<union> set (concat (map (adj es) ?new))"
      proof cases
        case 1
        then have "nx_adjacent es `` {x} \<subseteq> set seen \<union> set nextlevel" using "1.prems" by blast
        then show ?thesis using lv unfolding set_append by blast
      next
        case 2
        then show ?thesis unfolding set_concat_adj by blast
      qed
    qed
    show ?thesis unfolding eq by (rule "1.IH" [OF False refl inv])
  qed
qed

lemma plain_bfs_distinct:
  "distinct seen \<Longrightarrow> distinct (plain_bfs es seen level)"
proof (induction es seen level rule: plain_bfs.induct)
  case (1 es seen nextlevel)
  show ?case
  proof (cases "nextlevel = []")
    case True
    then show ?thesis using "1.prems" by (simp add: plain_bfs.simps)
  next
    case False
    let ?new = "remdups (filter (\<lambda>v. v \<notin> set seen) nextlevel)"
    have eq: "plain_bfs es seen nextlevel = plain_bfs es (seen @ ?new) (concat (map (adj es) ?new))"
      using False by (simp add: plain_bfs.simps [of es seen nextlevel] Let_def)
    have d: "distinct (seen @ ?new)" using "1.prems" by auto
    show ?thesis unfolding eq by (rule "1.IH" [OF False refl d])
  qed
qed

lemma closed_rtrancl:
  assumes "\<forall>x\<in>S. R `` {x} \<subseteq> S" and "(a, b) \<in> R\<^sup>*" and "a \<in> S"
  shows "b \<in> S"
  using assms(2,3,1) by (induction rule: rtrancl_induct) auto

lemma plain_bfs_component:
  "set (plain_bfs es [] [v]) = (nx_adjacent es)\<^sup>* `` {v}"
proof
  show "set (plain_bfs es [] [v]) \<subseteq> (nx_adjacent es)\<^sup>* `` {v}"
    using plain_bfs_sound [of es "[]" "[v]"] by simp
next
  have v: "v \<in> set (plain_bfs es [] [v])"
    using plain_bfs_superset [of "[]" "[v]" es] by simp
  have cl: "\<forall>x\<in>set (plain_bfs es [] [v]). nx_adjacent es `` {x} \<subseteq> set (plain_bfs es [] [v])"
    by (rule plain_bfs_closed) simp
  show "(nx_adjacent es)\<^sup>* `` {v} \<subseteq> set (plain_bfs es [] [v])"
    using closed_rtrancl [OF cl _ v] by auto
qed

lemma closed_sym_disjoint:
  assumes "sym R" and "\<forall>x\<in>S. R `` {x} \<subseteq> S" and "v \<notin> S"
  shows "R\<^sup>* `` {v} \<inter> S = {}"
proof (rule ccontr)
  assume "R\<^sup>* `` {v} \<inter> S \<noteq> {}"
  then obtain y where y: "(v, y) \<in> R\<^sup>*" "y \<in> S" by auto
  have "sym (R\<^sup>*)" using assms(1) by (rule sym_rtrancl)
  then have "(y, v) \<in> R\<^sup>*" using y(1) by (auto dest: symD)
  then have "v \<in> S" by (rule closed_rtrancl [OF assms(2) _ y(2)])
  then show False using assms(3) by simp
qed

lemma rtrancl_image_closed: "\<forall>x\<in>R\<^sup>* `` A. R `` {x} \<subseteq> R\<^sup>* `` A"
  by (auto intro: rtrancl_into_rtrancl)

lemma components_loop_props:
  "\<forall>x\<in>set seen. nx_adjacent es `` {x} \<subseteq> set seen \<Longrightarrow>
     (\<forall>c\<in>set (components_loop es vs seen).
         \<exists>v\<in>set vs. set c = (nx_adjacent es)\<^sup>* `` {v})
   \<and> distinct (concat (components_loop es vs seen))
   \<and> set (concat (components_loop es vs seen)) = (nx_adjacent es)\<^sup>* `` set vs - set seen"
proof (induction vs arbitrary: seen)
  case Nil
  then show ?case by simp
next
  case (Cons v vs)
  let ?E = "nx_adjacent es"
  show ?case
  proof (cases "v \<in> set seen")
    case True
    have "?E\<^sup>* `` {v} \<subseteq> set seen"
      using closed_rtrancl [OF Cons.prems _ True] by auto
    then have "?E\<^sup>* `` set (v # vs) - set seen = ?E\<^sup>* `` set vs - set seen" by auto
    then show ?thesis using True Cons.IH [OF Cons.prems] by auto
  next
    case False
    let ?c = "plain_bfs es [] [v]"
    have c: "set ?c = ?E\<^sup>* `` {v}" by (rule plain_bfs_component)
    have dc: "distinct ?c" by (rule plain_bfs_distinct) simp
    have disj: "set ?c \<inter> set seen = {}"
      unfolding c by (rule closed_sym_disjoint [OF sym_nx_adjacent Cons.prems False])
    have closed': "\<forall>x\<in>set (seen @ ?c). ?E `` {x} \<subseteq> set (seen @ ?c)"
      using Cons.prems rtrancl_image_closed [of ?E "{v}"] unfolding set_append c by blast
    note ih = Cons.IH [OF closed']
    have eq: "components_loop es (v # vs) seen = ?c # components_loop es vs (seen @ ?c)"
      using False by (simp add: Let_def)
    have 1: "\<forall>c\<in>set (components_loop es (v # vs) seen). \<exists>v'\<in>set (v # vs). set c = ?E\<^sup>* `` {v'}"
      unfolding eq using ih c by auto
    have 2: "distinct (concat (components_loop es (v # vs) seen))"
      unfolding eq using ih dc by auto
    have "set (concat (components_loop es (v # vs) seen))
            = set ?c \<union> (?E\<^sup>* `` set vs - set (seen @ ?c))"
      unfolding eq using ih by simp
    also have "\<dots> = ?E\<^sup>* `` set (v # vs) - set seen"
      using disj unfolding c set_append by auto
    finally show ?thesis using 1 2 by blast
  qed
qed

lemma connected_components_props:
  "(\<forall>c\<in>set (connected_components gr).
         \<exists>v\<in>set (g_nodes gr). set c = (nx_adjacent (g_edges gr))\<^sup>* `` {v})
   \<and> distinct (concat (connected_components gr))
   \<and> set (concat (connected_components gr)) = (nx_adjacent (g_edges gr))\<^sup>* `` set (g_nodes gr)"
  using components_loop_props [of "[]" "g_edges gr" "g_nodes gr"]
  by (simp add: connected_components_def)

lemma component_connected:
  assumes "sym E" and "set c = E\<^sup>* `` {v}" and "a \<in> set c" and "b \<in> set c"
  shows "(a, b) \<in> (E \<inter> set c \<times> set c)\<^sup>*"
proof -
  have reach: "(v, x) \<in> (E \<inter> set c \<times> set c)\<^sup>*" if "(v, x) \<in> E\<^sup>*" for x
    using that
  proof (induction rule: rtrancl_induct)
    case base
    show ?case by simp
  next
    case (step y z)
    have "y \<in> set c" "z \<in> set c"
      using step.hyps assms(2) by (auto intro: rtrancl_into_rtrancl)
    then have "(y, z) \<in> E \<inter> set c \<times> set c" using step.hyps(2) by simp
    then show ?case using step.IH by (rule rtrancl_into_rtrancl [rotated])
  qed
  have s: "sym (E \<inter> set c \<times> set c)" using assms(1) by (auto simp: sym_def)
  have "(v, a) \<in> (E \<inter> set c \<times> set c)\<^sup>*" using reach assms(2,3) by auto
  then have "(a, v) \<in> (E \<inter> set c \<times> set c)\<^sup>*"
    using sym_rtrancl [OF s] by (auto dest: symD)
  moreover have "(v, b) \<in> (E \<inter> set c \<times> set c)\<^sup>*" using reach assms(2,4) by auto
  ultimately show ?thesis by (rule rtrancl_trans)
qed

lemma nx_adjacent_positive:
  "nx_adjacent (g_edges (remove_negative_edges gr)) \<inter> C \<times> C \<subseteq> pos_adjacent gr C"
proof -
  have "\<not> (wlt0 w \<or> isnan w) \<longleftrightarrow> wge0 w" for w by (cases w) auto
  then show ?thesis
    by (auto simp: nx_adjacent_def pos_adjacent_def remove_negative_edges_def)
qed

lemma remove_negative_edges_idem:
  "remove_negative_edges (remove_negative_edges gr) = remove_negative_edges gr"
  by (simp add: remove_negative_edges_def)

lemma set_cluster_connected_components:
  "set (cluster_connected_components gr) = set (connected_components (remove_negative_edges gr))"
  by (simp add: cluster_connected_components_def)

lemma cluster_connected_components_connected:
  assumes "c \<in> set (cluster_connected_components gr)"
  shows "pos_connected gr c"
proof -
  let ?E = "nx_adjacent (g_edges (remove_negative_edges gr))"
  from assms connected_components_props [of "remove_negative_edges gr"]
  obtain v where v: "set c = ?E\<^sup>* `` {v}"
    unfolding set_cluster_connected_components by blast
  have "(a, b) \<in> (pos_adjacent gr (set c))\<^sup>*" if "a \<in> set c" "b \<in> set c" for a b
  proof -
    have "(a, b) \<in> (?E \<inter> set c \<times> set c)\<^sup>*"
      by (rule component_connected [OF sym_nx_adjacent v that])
    then show ?thesis
      using rtrancl_mono [OF nx_adjacent_positive [of gr "set c"] ] by blast
  qed
  then show ?thesis by (simp add: pos_connected_def)
qed

lemma pos_adjacent_subgraph:
  "pos_adjacent (subgraph gr cluster) C \<subseteq> pos_adjacent gr C"
  by (auto simp: pos_adjacent_def subgraph_def)

lemma pos_connected_subgraph:
  "pos_connected (subgraph gr cluster) c \<Longrightarrow> pos_connected gr c"
  unfolding pos_connected_def using rtrancl_mono [OF pos_adjacent_subgraph [of gr cluster "set c"] ]
  by blast

lemma pos_adjacent_remove_negative:
  "pos_adjacent (remove_negative_edges gr) C = pos_adjacent gr C"
proof -
  have "wge0 w \<Longrightarrow> \<not> (wlt0 w \<or> isnan w)" for w by (cases w) auto
  then show ?thesis
    by (auto simp: pos_adjacent_def remove_negative_edges_def)
qed

lemma split_classes_connected:
  assumes "c \<in> set (split_components gr clusters)"
  shows "pos_connected gr c"
proof -
  from assms obtain cluster where
    "c \<in> set (cluster_connected_components (subgraph (remove_negative_edges gr) cluster))"
    by (auto simp: split_components_def)
  then have "pos_connected (subgraph (remove_negative_edges gr) cluster) c"
    by (rule cluster_connected_components_connected)
  then have "pos_connected (remove_negative_edges gr) c" by (rule pos_connected_subgraph)
  then show ?thesis by (simp add: pos_connected_def pos_adjacent_remove_negative)
qed

lemma distinct_concat_sort_key:
  "distinct (concat (sort_key f xs)) \<longleftrightarrow> distinct (concat xs)"
proof -
  have "removeAll [] (sort_key f xs) = sort_key f (removeAll [] xs)"
    by (simp add: removeAll_filter_not_eq filter_sort)
  then show ?thesis by (simp add: distinct_concat_iff)
qed

lemma wf_adjacent_nodes:
  assumes "wf_graph gr"
  shows "(nx_adjacent (g_edges (remove_negative_edges gr)))\<^sup>* `` set (g_nodes gr) = set (g_nodes gr)"
proof -
  let ?E = "nx_adjacent (g_edges (remove_negative_edges gr))"
  have cl: "\<forall>x\<in>set (g_nodes gr). ?E `` {x} \<subseteq> set (g_nodes gr)"
    using assms
    by (auto simp: wf_graph_def list_all_iff nx_adjacent_def remove_negative_edges_def)
  have "?E\<^sup>* `` set (g_nodes gr) \<subseteq> set (g_nodes gr)"
    using closed_rtrancl [OF cl] by blast
  then show ?thesis by blast
qed

lemma components_clustering:
  assumes "wf_graph gr"
  shows "is_clustering gr (cluster_connected_components gr)"
proof -
  have g: "g_nodes (remove_negative_edges gr) = g_nodes gr"
    by (simp add: remove_negative_edges_def)
  note p = connected_components_props [of "remove_negative_edges gr"]
  have "distinct (concat (cluster_connected_components gr))"
    using p by (simp add: cluster_connected_components_def distinct_concat_sort_key)
  moreover have "set (concat (cluster_connected_components gr)) = set (g_nodes gr)"
  proof -
    have "set (concat (cluster_connected_components gr))
        = set (concat (connected_components (remove_negative_edges gr)))"
      by (simp add: cluster_connected_components_def)
    also have "\<dots> = (nx_adjacent (g_edges (remove_negative_edges gr)))\<^sup>* `` set (g_nodes gr)"
      using p by (simp only: g)
    also have "\<dots> = set (g_nodes gr)" by (rule wf_adjacent_nodes [OF assms])
    finally show ?thesis .
  qed
  ultimately show ?thesis by (simp add: is_clustering_def)
qed

subsection \<open>Splitting clusters without evidence\<close>

lemma set_sort_by_size: "set (sort_by_size xs) = set xs"
  by (simp add: sort_by_size_def)

lemma split_ok:
  "split_non_evidence_clusters gr clusters = Inr out \<Longrightarrow>
     out = split_components gr clusters \<and> set (concat out) = set (concat clusters)
     \<and> length (concat out) = length (concat clusters)"
  by (auto simp: split_non_evidence_clusters_def Let_def split: if_splits)


lemma wf_subgraph:
  assumes "wf_graph gr"
  shows "wf_graph (subgraph (remove_negative_edges gr) c)"
proof -
  have d: "distinct (map (\<lambda>(a, b, w). (a, b)) (g_edges gr))" using assms by (simp add: wf_graph_def)
  have "distinct (map (\<lambda>(a, b, w). (a, b))
          (filter (\<lambda>(a, b, w). a \<in> set c \<and> b \<in> set c)
             (filter (\<lambda>(i, j, w). \<not> (wlt0 w \<or> isnan w)) (g_edges gr))))"
    using d by (simp add: distinct_map_filter)
  then show ?thesis
    using assms
    by (auto simp: wf_graph_def subgraph_def remove_negative_edges_def list_all_iff)
qed

lemma split_cluster_components:
  assumes wf: "wf_graph gr" and c: "distinct c" "set c \<subseteq> set (g_nodes gr)"
  shows "set (concat (cluster_connected_components (subgraph (remove_negative_edges gr) c))) = set c"
    and "length (concat (cluster_connected_components (subgraph (remove_negative_edges gr) c))) = length c"
proof -
  let ?sub = "subgraph (remove_negative_edges gr) c"
  have cl: "is_clustering ?sub (cluster_connected_components ?sub)"
    by (rule components_clustering [OF wf_subgraph [OF wf] ])
  have n: "set (g_nodes ?sub) = set c"
    using c(2) by (auto simp: subgraph_def remove_negative_edges_def)
  show s: "set (concat (cluster_connected_components ?sub)) = set c"
    using cl n by (simp add: is_clustering_def)
  have "distinct (concat (cluster_connected_components ?sub))"
    using cl by (simp add: is_clustering_def)
  then have "length (concat (cluster_connected_components ?sub))
      = card (set (concat (cluster_connected_components ?sub)))"
    by (rule distinct_card [symmetric])
  also have "\<dots> = card (set c)" by (simp only: s)
  also have "\<dots> = length c" using c(1) by (simp add: distinct_card)
  finally show "length (concat (cluster_connected_components ?sub)) = length c" .
qed

lemma split_components_nodes:
  assumes wf: "wf_graph gr"
  shows "\<forall>c\<in>set clusters. distinct c \<and> set c \<subseteq> set (g_nodes gr) \<Longrightarrow>
     set (concat (split_components gr clusters)) = set (concat clusters)
   \<and> length (concat (split_components gr clusters)) = length (concat clusters)"
proof (induction clusters)
  case Nil
  then show ?case by (simp add: split_components_def)
next
  case (Cons c cs)
  have u: "split_components gr (c # cs)
      = cluster_connected_components (subgraph (remove_negative_edges gr) c) @ split_components gr cs"
    by (simp add: split_components_def)
  have c: "distinct c" "set c \<subseteq> set (g_nodes gr)" using Cons.prems by simp_all
  have ih: "set (concat (split_components gr cs)) = set (concat cs)"
    "length (concat (split_components gr cs)) = length (concat cs)"
    using Cons by simp_all
  show ?case
    unfolding u using split_cluster_components [OF wf c] ih by simp
qed

lemma split_returns:
  assumes "wf_graph gr" and "\<forall>c\<in>set clusters. distinct c \<and> set c \<subseteq> set (g_nodes gr)"
  shows "split_non_evidence_clusters gr clusters = Inr (split_components gr clusters)"
  using split_components_nodes [OF assms]
  by (simp add: split_non_evidence_clusters_def Let_def)

text \<open>
  Claim C4, as amended.  The split returns only when the nodes of the components it
  produced are the nodes of the clusters it was given; then every returned cluster is
  connected by edges of non-negative weight inside the cluster.  When the two node sets
  differ it ends in the fatal exit.  In a run of the clusterer with the split flag that
  passes the test for a zero initial loss, the result is the split of the clusters of
  the chosen state, sorted by size, or the fatal exit of the split.  In every run with
  the split flag that starts from the default clustering (\<open>initial = []\<close>) or from an
  initial clustering whose loss is not zero, every returned cluster is connected by
  edges of non-negative weight.  A run that is given an initial clustering of loss zero
  returns it without splitting.  On a networkx graph, the split of clusters that are
  sets of nodes of the graph always returns.
\<close>

theorem split_clusters_connected:
  "(split_non_evidence_clusters gr clusters = Inr out \<longrightarrow>
        set (concat out) = set (concat clusters) \<and> (\<forall>C\<in>set out. pos_connected gr C))
   \<and> (set (concat (split_components gr clusters)) \<noteq> set (concat clusters) \<longrightarrow>
        split_non_evidence_clusters gr clusters = Inl SystemExit)
   \<and> (search_prepare gr (if initial = [] then cluster_connected_components gr else initial)
          = Inr (ep, en, st, l) \<and> l \<noteq> 0
       \<and> anneal_and_select sa gr s max_attempts max_iters
            (if initial = [] then cluster_connected_components gr else initial) (ep, en, st, l) r
          = Inr (pre, r2) \<longrightarrow>
        cluster_correlation_search sa gr s max_attempts max_iters initial True r =
          (case split_non_evidence_clusters gr pre of
             Inl e \<Rightarrow> Inl e
           | Inr post \<Rightarrow> Inr (sort_by_size post, r2)))
   \<and> (cluster_correlation_search sa gr s max_attempts max_iters initial True r = Inr (classes, r')
       \<and> (initial = [] \<or> (\<forall>ep en st. search_prepare gr initial \<noteq> Inr (ep, en, st, 0))) \<longrightarrow>
        (\<forall>C\<in>set classes. pos_connected gr C))
   \<and> (wf_graph gr \<and> (\<forall>c\<in>set clusters. distinct c \<and> set c \<subseteq> set (g_nodes gr)) \<longrightarrow>
        split_non_evidence_clusters gr clusters = Inr (split_components gr clusters))"
proof -
  have E: "split_non_evidence_clusters gr clusters = Inr (split_components gr clusters)"
    if "wf_graph gr" "\<forall>c\<in>set clusters. distinct c \<and> set c \<subseteq> set (g_nodes gr)"
    using that by (rule split_returns)
  have A: "set (concat out) = set (concat clusters) \<and> (\<forall>C\<in>set out. pos_connected gr C)"
    if "split_non_evidence_clusters gr clusters = Inr out" for clusters out
    using split_ok [OF that] split_classes_connected [of _ gr clusters] by blast
  have B: "split_non_evidence_clusters gr clusters = Inl SystemExit"
    if "set (concat (split_components gr clusters)) \<noteq> set (concat clusters)"
    using that by (auto simp: split_non_evidence_clusters_def Let_def)
  let ?classes = "if initial = [] then cluster_connected_components gr else initial"
  have C: "cluster_correlation_search sa gr s max_attempts max_iters initial True r =
          (case split_non_evidence_clusters gr pre of
             Inl e \<Rightarrow> Inl e
           | Inr post \<Rightarrow> Inr (sort_by_size post, r2))"
    if "search_prepare gr ?classes = Inr (ep, en, st, l)" "l \<noteq> 0"
       "anneal_and_select sa gr s max_attempts max_iters ?classes (ep, en, st, l) r = Inr (pre, r2)"
    using that by (simp add: cluster_correlation_search_def Let_def)
  have D: "\<forall>C\<in>set classes. pos_connected gr C"
    if ccs: "cluster_correlation_search sa gr s max_attempts max_iters initial True r = Inr (classes, r')"
      and ini: "initial = [] \<or> (\<forall>ep en st. search_prepare gr initial \<noteq> Inr (ep, en, st, 0))"
  proof -
    from ccs obtain ep en st l where
      su: "search_prepare gr ?classes = Inr (ep, en, st, l)"
      by (auto simp: cluster_correlation_search_def Let_def split: sum.splits)
    show ?thesis
    proof (cases "l = 0")
      case True
      then have i: "initial = []" using ini su by (cases "initial = []") auto
      have "classes = sort_by_size (cluster_connected_components gr)"
        using ccs su True i by (simp add: cluster_correlation_search_def Let_def)
      then show ?thesis
        using cluster_connected_components_connected [of _ gr] by (simp add: set_sort_by_size)
    next
      case False
      from ccs su False obtain pre r2 where
        sel: "anneal_and_select sa gr s max_attempts max_iters ?classes (ep, en, st, l) r = Inr (pre, r2)"
        by (auto simp: cluster_correlation_search_def Let_def split: sum.splits)
      from ccs su False sel obtain post where
        post: "split_non_evidence_clusters gr pre = Inr post" "classes = sort_by_size post"
        by (auto simp: cluster_correlation_search_def Let_def split: sum.splits)
      show ?thesis using A [OF post(1)] post(2) by (simp add: set_sort_by_size)
    qed
  qed
  show ?thesis using A B C D E by blast
qed

theorem split_clusters_connected_witness:
  "cluster_correlation_search (\<lambda>fitness len max_val init max_attempts max_iters r. Inr (([0, 0, 0, 0], 0), r))
       \<lparr>g_nodes = [0, 1, 2, 3], g_edges = [(0, 1, Val 1), (1, 2, Val 1), (0, 2, Val (- 1))]\<rparr>
       3 200 5000 [] True (sconst 0)
     = Inr ([ [0, 1, 2], [3] ], sconst 0)
   \<and> pos_connected \<lparr>g_nodes = [0, 1, 2, 3], g_edges = [(0, 1, Val 1), (1, 2, Val 1), (0, 2, Val (- 1))]\<rparr> [0, 1, 2]
   \<and> pos_connected \<lparr>g_nodes = [0, 1, 2, 3], g_edges = [(0, 1, Val 1), (1, 2, Val 1), (0, 2, Val (- 1))]\<rparr> [3]"
proof -
  define gr where "gr = \<lparr>g_nodes = [0, 1, 2, 3], g_edges = [(0, 1, Val 1), (1, 2, Val 1), (0, 2, Val (- 1))]\<rparr>"
  define sa :: annealer where
    "sa = (\<lambda>fitness len max_val init max_attempts max_iters r. Inr (([0, 0, 0, 0], 0), r))"
  have rn: "remove_negative_edges gr = \<lparr>g_nodes = [0, 1, 2, 3], g_edges = [(0, 1, Val 1), (1, 2, Val 1)]\<rparr>"
    by (simp add: remove_negative_edges_def gr_def)
  have b0: "plain_bfs [(0, 1, Val 1), (1, 2, Val 1)] [] [0] = [0, 1, 2]"
    by (simp add: plain_bfs.simps adj_def)
  have b3: "plain_bfs [(0, 1, Val 1), (1, 2, Val 1)] [] [3] = [3]"
    by (simp add: plain_bfs.simps adj_def)
  have cc: "connected_components \<lparr>g_nodes = [0, 1, 2, 3], g_edges = [(0, 1, Val 1), (1, 2, Val 1)]\<rparr>
      = [ [0, 1, 2], [3] ]"
    by (simp add: connected_components_def b0 b3)
  have ccc: "cluster_connected_components gr = [ [0, 1, 2], [3] ]"
    by (simp add: cluster_connected_components_def rn cc)
  have items: "n2c_items gr [ [0, 1, 2], [3] ] = Inr [(0, 0), (1, 0), (2, 0), (3, 1)]"
    by (simp add: n2c_items_def n2i_def gr_def enumerate_eq_zip upt_rec)
  have st: "init_state_of [(0, 0), (1, 0), (2, 0), (3, 1)] = [0, 0, 0, 1]"
    by (simp add: init_state_of_def dict_get_def)
  have ep: "edges_positive gr = Inr [(0, 1, 1), (1, 2, 1)]"
    by (simp add: edges_positive_def n2i_def gr_def)
  have en: "edges_negative gr = Inr [(0, 2, - 1)]"
    by (simp add: edges_negative_def n2i_def gr_def)
  have loss: "conflict_loss [(0, 1, 1), (1, 2, 1)] [(0, 2, - 1)] [0, 0, 0, 1] = Inr 1"
    by (simp add: conflict_loss_def)
  have su: "search_prepare gr (if ([]::int list list) = [] then cluster_connected_components gr else [])
      = Inr ([(0, 1, 1), (1, 2, 1)], [(0, 2, - 1)], [0, 0, 0, 1], 1)"
    by (simp only: search_prepare_def ccc items st ep en loss Let_def sum.case prod.case
        simp_thms if_True)
  have up: "[2..3 - 1] = [2::int]" by (simp add: upto_rec1)
  have cs: "classes_of_state gr [0, 0, 0, 0] = Inr [ [0, 1, 2, 3] ]"
    by (simp add: classes_of_state_def first_occurrences_def gr_def upt_rec)
  have sel: "anneal_and_select sa gr 3 200 5000
        (if ([]::int list list) = [] then cluster_connected_components gr else [])
        ([(0, 1, 1), (1, 2, 1)], [(0, 2, - 1)], [0, 0, 0, 1], 1) (sconst 0)
      = Inr ([ [0, 1, 2, 3] ], sconst 0)"
    by (simp add: anneal_and_select_def ccc up sa_def random_choice_def cs)
  have sg: "subgraph (remove_negative_edges gr) [0, 1, 2, 3]
      = \<lparr>g_nodes = [0, 1, 2, 3], g_edges = [(0, 1, Val 1), (1, 2, Val 1)]\<rparr>"
    by (simp add: subgraph_def rn)
  have rn2: "remove_negative_edges \<lparr>g_nodes = [0, 1, 2, 3], g_edges = [(0, 1, Val 1), (1, 2, Val 1)]\<rparr>
      = \<lparr>g_nodes = [0, 1, 2, 3], g_edges = [(0, 1, Val 1), (1, 2, Val 1)]\<rparr>"
    by (simp add: remove_negative_edges_def)
  have sc: "split_components gr [ [0, 1, 2, 3] ] = [ [0, 1, 2], [3] ]"
    by (simp add: split_components_def sg cluster_connected_components_def rn2 cc)
  have sp: "split_non_evidence_clusters gr [ [0, 1, 2, 3] ] = Inr [ [0, 1, 2], [3] ]"
  proof -
    have e: "set (concat [ [0, 1, 2, 3::int] ]) = set (concat [ [0, 1, 2], [3::int] ])" by auto
    show ?thesis
      unfolding split_non_evidence_clusters_def sc Let_def e by simp
  qed
  have sb: "sort_by_size [ [0, 1, 2], [3] ] = [ [0, 1, 2], [3::int] ]"
    by (simp add: sort_by_size_def)
  have l: "(1::real) \<noteq> 0" by simp
  note t = split_clusters_connected [of gr _ _ "[]" "[(0, 1, 1), (1, 2, 1)]" "[(0, 2, - 1)]"
      "[0, 0, 0, 1]" 1 sa 3 200 5000 "sconst 0" "[ [0, 1, 2, 3] ]" "sconst 0" "[ [0, 1, 2], [3] ]" "sconst 0"]
  from t su l sel have res: "cluster_correlation_search sa gr 3 200 5000 [] True (sconst 0)
      = Inr ([ [0, 1, 2], [3] ], sconst 0)"
    by (simp add: sp sb)
  with t have "\<forall>C\<in>set [ [0, 1, 2], [3] ]. pos_connected gr C" by blast
  then have "pos_connected gr [0, 1, 2]" "pos_connected gr [3]" by simp_all
  then show ?thesis using res unfolding gr_def sa_def by blast
qed

text \<open>Claim C4 as stated fails: on the graph with the nodes 0 and 1 and no edge, the run
  with the split flag and the initial clustering \<open>[{0, 1}]\<close> has initial loss zero and
  returns the cluster \<open>{0, 1}\<close>, which no edge connects.\<close>

theorem unsplit_initial_counterexample:
  "cluster_correlation_search (\<lambda>fitness len max_val init max_attempts max_iters r. Inl ValueError)
       \<lparr>g_nodes = [0, 1], g_edges = []\<rparr> 10 200 5000 [ [0, 1] ] True (sconst 0)
     = Inr ([ [0, 1] ], sconst 0)
   \<and> \<not> pos_connected \<lparr>g_nodes = [0, 1], g_edges = []\<rparr> [0, 1]"
proof -
  have "pos_adjacent \<lparr>g_nodes = [0, 1], g_edges = []\<rparr> (set [0, 1]) = {}"
    by (simp add: pos_adjacent_def)
  then have "(0, 1) \<notin> (pos_adjacent \<lparr>g_nodes = [0, 1], g_edges = []\<rparr> (set [0, 1]))\<^sup>*"
    by simp
  then have n: "\<not> pos_connected \<lparr>g_nodes = [0, 1], g_edges = []\<rparr> [0, 1]"
    unfolding pos_connected_def by (metis list.set_intros(1) list.set_intros(2))
  have items: "n2c_items \<lparr>g_nodes = [0, 1], g_edges = []\<rparr> [ [0, 1] ] = Inr [(0, 0), (1, 0)]"
    by (simp add: n2c_items_def n2i_def enumerate_eq_zip upt_rec)
  have "search_prepare \<lparr>g_nodes = [0, 1], g_edges = []\<rparr> [ [0, 1] ] = Inr ([], [], [0, 0], 0)"
    by (simp add: search_prepare_def items edges_positive_def edges_negative_def
        init_state_of_def dict_get_def conflict_loss_def)
  then have "cluster_correlation_search (\<lambda>fitness len max_val init max_attempts max_iters r. Inl ValueError)
       \<lparr>g_nodes = [0, 1], g_edges = []\<rparr> 10 200 5000 [ [0, 1] ] True (sconst 0)
     = Inr ([ [0, 1] ], sconst 0)"
    by (simp add: cluster_correlation_search_def sort_by_size_def)
  then show ?thesis using n by blast
qed

subsection \<open>The initial loss\<close>

lemma index_of_mem:
  "a \<in> set ns \<Longrightarrow> \<exists>i. index_of ns a = Some i \<and> i < length ns \<and> ns ! i = a"
  by (induction ns) auto

lemma the_index_props:
  assumes "a \<in> set ns"
  shows "index_of ns a = Some (the_index ns a)" "the_index ns a < length ns" "ns ! the_index ns a = a"
  using index_of_mem [OF assms] by (auto simp: the_index_def)

lemma the_index_inj: "a \<in> set ns \<Longrightarrow> b \<in> set ns \<Longrightarrow> the_index ns a = the_index ns b \<Longrightarrow> a = b"
  using the_index_props(3) by metis

lemma n2i_mem: "a \<in> set (g_nodes gr) \<Longrightarrow> n2i gr a = Inr (the_index (g_nodes gr) a)"
  by (simp add: n2i_def the_index_props(1))

lemma map_err_ok: "\<forall>x\<in>set xs. f x = Inr (g x) \<Longrightarrow> map_err f xs = Inr (map g xs)"
  by (induction xs) auto

lemma flat_from_Nil: "flat_from n [] = []"
  by (simp add: flat_from_def)

lemma flat_from_Cons: "flat_from n (c # cs) = map (Pair n) c @ flat_from (Suc n) cs"
  by (simp add: flat_from_def)

lemma map_snd_flat: "map snd (flat_from n classes) = concat classes"
  by (induction classes arbitrary: n) (simp_all add: flat_from_Nil flat_from_Cons comp_def)

lemma flat_index_ge: "(i, a) \<in> set (flat_from n classes) \<Longrightarrow> n \<le> i"
proof (induction classes arbitrary: n)
  case Nil
  then show ?case by (simp add: flat_from_Nil)
next
  case (Cons c cs)
  from Cons.prems have "(i, a) \<in> Pair n ` set c \<or> (i, a) \<in> set (flat_from (Suc n) cs)"
    by (simp add: flat_from_Cons)
  then show ?case
  proof
    assume "(i, a) \<in> Pair n ` set c"
    then show ?thesis by auto
  next
    assume "(i, a) \<in> set (flat_from (Suc n) cs)"
    then have "Suc n \<le> i" by (rule Cons.IH)
    then show ?thesis by simp
  qed
qed

lemma same_cluster_aux:
  "(\<exists>C\<in>set classes. a \<in> set C \<and> b \<in> set C) \<longleftrightarrow>
   (\<exists>i. (i, a) \<in> set (flat_from n classes) \<and> (i, b) \<in> set (flat_from n classes))"
proof (induction classes arbitrary: n)
  case Nil
  then show ?case by (simp add: flat_from_Nil)
next
  case (Cons c cs)
  have F: "set (flat_from n (c # cs)) = Pair n ` set c \<union> set (flat_from (Suc n) cs)"
    by (simp add: flat_from_Cons)
  have ge: "(i, x) \<in> set (flat_from (Suc n) cs) \<Longrightarrow> i \<noteq> n" for i x
    using flat_index_ge [of i x "Suc n" cs] by auto
  have "(\<exists>i. (i, a) \<in> set (flat_from n (c # cs)) \<and> (i, b) \<in> set (flat_from n (c # cs)))
      \<longleftrightarrow> (a \<in> set c \<and> b \<in> set c)
          \<or> (\<exists>i. (i, a) \<in> set (flat_from (Suc n) cs) \<and> (i, b) \<in> set (flat_from (Suc n) cs))"
    (is "?L \<longleftrightarrow> ?R")
  proof
    assume ?L
    then obtain i where i: "(i, a) \<in> set (flat_from n (c # cs))" "(i, b) \<in> set (flat_from n (c # cs))"
      by blast
    show ?R
    proof (cases "i = n")
      case True
      then have "a \<in> set c" "b \<in> set c" using i ge unfolding F by blast+
      then show ?thesis by simp
    next
      case False
      then have "(i, a) \<in> set (flat_from (Suc n) cs)" "(i, b) \<in> set (flat_from (Suc n) cs)"
        using i unfolding F by blast+
      then show ?thesis by blast
    qed
  next
    assume ?R
    then show ?L unfolding F by blast
  qed
  then show ?case using Cons.IH [of "Suc n"] by simp
qed

lemma same_cluster_iff:
  "same_cluster classes a b \<longleftrightarrow>
     (\<exists>i. (i, a) \<in> set (flat_from 0 classes) \<and> (i, b) \<in> set (flat_from 0 classes))"
  using same_cluster_aux [of classes a b 0] by (simp add: same_cluster_def list_ex_iff)

lemma flat_unique:
  assumes "distinct (concat classes)" "(i, a) \<in> set (flat_from n classes)" "(j, a) \<in> set (flat_from n classes)"
  shows "i = j"
proof -
  have "distinct (map snd (flat_from n classes))" using assms(1) by (simp add: map_snd_flat)
  then have "inj_on snd (set (flat_from n classes))" by (simp add: distinct_map)
  moreover have "snd (i, a) = snd (j, a)" by simp
  ultimately have "(i, a) = (j, a)" using assms(2,3) by (rule inj_onD)
  then show ?thesis by simp
qed

lemma the_index_nth:
  assumes "distinct ns" "k < length ns"
  shows "the_index ns (ns ! k) = k"
proof -
  have m: "ns ! k \<in> set ns" using assms(2) by simp
  have "ns ! the_index ns (ns ! k) = ns ! k" "the_index ns (ns ! k) < length ns"
    using the_index_props [OF m] by simp_all
  then show ?thesis using assms by (simp add: nth_eq_iff_index_eq)
qed

lemma concat_map_option:
  "\<forall>k\<in>set ks. f k = Some (g k) \<Longrightarrow>
   concat (map (\<lambda>k. case f k of None \<Rightarrow> [] | Some c \<Rightarrow> [c]) ks) = map g ks"
  by (induction ks) auto

lemma n2c_items_clustering:
  assumes "set (concat classes) \<subseteq> set (g_nodes gr)"
  shows "n2c_items gr classes
       = Inr (map (\<lambda>(i, a). (the_index (g_nodes gr) a, i)) (flat_from 0 classes))"
proof -
  have "\<forall>x\<in>set (flat_from 0 classes).
          (\<lambda>(i, node). case n2i gr node of Inl e \<Rightarrow> Inl e | Inr k \<Rightarrow> Inr (k, i)) x
          = Inr ((\<lambda>(i, a). (the_index (g_nodes gr) a, i)) x)"
  proof
    fix x assume x: "x \<in> set (flat_from 0 classes)"
    obtain i a where ia: "x = (i, a)" by (cases x)
    have "a \<in> snd ` set (flat_from 0 classes)" using x ia by force
    then have "a \<in> set (concat classes)" by (simp only: set_map [symmetric] map_snd_flat)
    then have "a \<in> set (g_nodes gr)" using assms by blast
    then show "(\<lambda>(i, node). case n2i gr node of Inl e \<Rightarrow> Inl e | Inr k \<Rightarrow> Inr (k, i)) x
          = Inr ((\<lambda>(i, a). (the_index (g_nodes gr) a, i)) x)"
      by (simp add: ia n2i_mem)
  qed
  then have "map_err (\<lambda>(i, node). case n2i gr node of Inl e \<Rightarrow> Inl e | Inr k \<Rightarrow> Inr (k, i))
               (flat_from 0 classes)
           = Inr (map (\<lambda>(i, a). (the_index (g_nodes gr) a, i)) (flat_from 0 classes))"
    by (rule map_err_ok)
  then show ?thesis by (simp only: n2c_items_def flat_from_def)
qed

lemma init_state_clustering:
  assumes "distinct (g_nodes gr)" and "is_clustering gr classes"
  defines "items \<equiv> map (\<lambda>(i, a). (the_index (g_nodes gr) a, i)) (flat_from 0 classes)"
  shows "length (init_state_of items) = length (g_nodes gr)"
    and "\<forall>(i, a)\<in>set (flat_from 0 classes). init_state_of items ! the_index (g_nodes gr) a = i"
proof -
  let ?ns = "g_nodes gr"
  let ?idx = "the_index ?ns"
  let ?flat = "flat_from 0 classes"
  have dc: "distinct (concat classes)" and sc: "set (concat classes) = set ?ns"
    using assms(2) by (simp_all add: is_clustering_def)
  have "map fst items = map ?idx (map snd ?flat)"
    unfolding items_def by (simp add: comp_def case_prod_unfold)
  then have keys: "map fst items = map ?idx (concat classes)"
    by (simp only: map_snd_flat)
  have inj: "inj_on ?idx (set (concat classes))"
    unfolding sc by (rule inj_onI) (rule the_index_inj)
  have dk: "distinct (map fst items)" unfolding keys using dc inj by (simp add: distinct_map)
  have sk: "set (map fst items) = {0..<length ?ns}"
  proof
    show "set (map fst items) \<subseteq> {0..<length ?ns}"
      unfolding keys using the_index_props(2) [of _ ?ns] sc by auto
  next
    show "{0..<length ?ns} \<subseteq> set (map fst items)"
    proof
      fix k assume "k \<in> {0..<length ?ns}"
      then have k: "k < length ?ns" by simp
      then have "?ns ! k \<in> set ?ns" by simp
      then have "?ns ! k \<in> set (concat classes)" by (simp only: sc)
      then have "?idx (?ns ! k) \<in> set (map fst items)" unfolding keys by simp
      then show "k \<in> set (map fst items)" using the_index_nth [OF assms(1) k] by simp
    qed
  qed
  have sorted_keys: "sort (remdups (map fst items)) = [0..<length ?ns]"
  proof (rule sorted_distinct_set_unique)
    show "sorted (sort (remdups (map fst items)))" by simp
    show "distinct (sort (remdups (map fst items)))" by simp
    show "sorted [0..<length ?ns]" by simp
    show "distinct [0..<length ?ns]" by simp
    show "set (sort (remdups (map fst items))) = set [0..<length ?ns]" using sk by simp
  qed
  have get: "dict_get items k = Some i" if "(k, i) \<in> set items" for k i
  proof -
    have "distinct (map fst (rev items))" using dk by (simp add: rev_map [symmetric])
    moreover have "(k, i) \<in> set (rev items)" using that by simp
    ultimately show ?thesis unfolding dict_get_def by (rule map_of_is_SomeI)
  qed
  have ex: "\<exists>i. (k, i) \<in> set items" if "k < length ?ns" for k
  proof -
    have "?ns ! k \<in> set ?ns" using that by simp
    then have "?ns ! k \<in> set (map snd ?flat)" by (simp only: map_snd_flat sc)
    then obtain i where "(i, ?ns ! k) \<in> set ?flat" by auto
    then have "(?idx (?ns ! k), i) \<in> set items" unfolding items_def by force
    then show ?thesis using the_index_nth [OF assms(1) that] by auto
  qed
  define c where "c k = (SOME i. (k, i) \<in> set items)" for k
  have c: "(k, c k) \<in> set items" if "k < length ?ns" for k
    unfolding c_def using ex [OF that] by (rule someI_ex)
  have "\<forall>k\<in>set [0..<length ?ns]. dict_get items k = Some (c k)"
    using c get by simp
  then have st: "init_state_of items = map c [0..<length ?ns]"
    unfolding init_state_of_def sorted_keys by (rule concat_map_option)
  show "length (init_state_of items) = length ?ns" by (simp add: st)
  show "\<forall>(i, a)\<in>set ?flat. init_state_of items ! ?idx a = i"
  proof (clarify)
    fix i a assume ia: "(i, a) \<in> set ?flat"
    then have "a \<in> set (map snd ?flat)" by force
    then have "a \<in> set (concat classes)" by (simp only: map_snd_flat)
    then have a: "a \<in> set ?ns" by (simp only: sc)
    have lt: "?idx a < length ?ns" using the_index_props(2) [OF a] .
    have "(?idx a, i) \<in> set items" unfolding items_def using ia by force
    then have "dict_get items (?idx a) = Some i" by (rule get)
    moreover have "dict_get items (?idx a) = Some (c (?idx a))" using c [OF lt] by (rule get)
    ultimately have "c (?idx a) = i" by simp
    then show "init_state_of items ! ?idx a = i" using lt by (simp add: st)
  qed
qed

lemma selected_pairs:
  assumes sel: "\<And>e. sel e = [] \<or> (\<exists>x. sel e = [(fst e, fst (snd e), x)])"
  shows "distinct (map (\<lambda>e. (fst e, fst (snd e))) es) \<Longrightarrow>
         distinct (map (\<lambda>t. (fst t, fst (snd t))) (concat (map sel es)))
       \<and> set (map (\<lambda>t. (fst t, fst (snd t))) (concat (map sel es)))
            \<subseteq> set (map (\<lambda>e. (fst e, fst (snd e))) es)"
proof (induction es)
  case Nil
  then show ?case by simp
next
  case (Cons e es)
  then have ih: "distinct (map (\<lambda>t. (fst t, fst (snd t))) (concat (map sel es)))"
      "set (map (\<lambda>t. (fst t, fst (snd t))) (concat (map sel es)))
            \<subseteq> set (map (\<lambda>e. (fst e, fst (snd e))) es)"
    and ne: "(fst e, fst (snd e)) \<notin> set (map (\<lambda>e. (fst e, fst (snd e))) es)"
    by auto
  from sel [of e] show ?case
  proof
    assume "sel e = []"
    then show ?thesis using ih by auto
  next
    assume "\<exists>x. sel e = [(fst e, fst (snd e), x)]"
    then obtain x where x: "sel e = [(fst e, fst (snd e), x)]" by blast
    have "(fst e, fst (snd e)) \<notin> set (map (\<lambda>t. (fst t, fst (snd t))) (concat (map sel es)))"
      using ne ih(2) by blast
    then show ?thesis using ih x by auto
  qed
qed

lemma indexed_edges:
  assumes sel: "\<And>e. sel e = [] \<or> (\<exists>x. sel e = [(fst e, fst (snd e), x)])"
    and wf: "wf_graph gr"
  shows "map_sum id remdups
       (map_err (\<lambda>(a, b, x). case n2i gr a of Inl e \<Rightarrow> Inl e
                  | Inr i \<Rightarrow> (case n2i gr b of Inl e \<Rightarrow> Inl e | Inr j \<Rightarrow> Inr (i, j, x)))
          (concat (map sel (g_edges gr))))
     = Inr (map (\<lambda>(a, b, x). (the_index (g_nodes gr) a, the_index (g_nodes gr) b, x))
              (concat (map sel (g_edges gr))))"
    and "\<forall>(a, b, x)\<in>set (concat (map sel (g_edges gr))).
            a \<in> set (g_nodes gr) \<and> b \<in> set (g_nodes gr)"
proof -
  let ?ns = "g_nodes gr"
  let ?idx = "the_index ?ns"
  let ?P = "concat (map sel (g_edges gr))"
  let ?h = "\<lambda>(a, b, x). (?idx a, ?idx b, x)"
  have pairs_eq: "(\<lambda>(a, b, w). (a, b)) = (\<lambda>e. (fst e, fst (snd e)))" by (auto simp: fun_eq_iff)
  have de: "distinct (map (\<lambda>e. (fst e, fst (snd e))) (g_edges gr))"
    using wf by (simp add: wf_graph_def pairs_eq)
  have en: "\<forall>e\<in>set (g_edges gr). fst e \<in> set ?ns \<and> fst (snd e) \<in> set ?ns"
    using wf by (auto simp: wf_graph_def list_all_iff)
  note sp = selected_pairs [of sel, OF sel de]
  have mem: "fst t \<in> set ?ns \<and> fst (snd t) \<in> set ?ns" if "t \<in> set ?P" for t
  proof -
    have "(fst t, fst (snd t)) \<in> set (map (\<lambda>t. (fst t, fst (snd t))) ?P)" using that by force
    then have "(fst t, fst (snd t)) \<in> set (map (\<lambda>e. (fst e, fst (snd e))) (g_edges gr))"
      using sp by blast
    then show ?thesis using en by auto
  qed
  show nodes: "\<forall>(a, b, x)\<in>set ?P. a \<in> set ?ns \<and> b \<in> set ?ns"
    using mem by fastforce
  have ok: "\<forall>t\<in>set ?P. (\<lambda>(a, b, x). case n2i gr a of Inl e \<Rightarrow> Inl e
                  | Inr i \<Rightarrow> (case n2i gr b of Inl e \<Rightarrow> Inl e | Inr j \<Rightarrow> Inr (i, j, x))) t
              = Inr (?h t)"
  proof
    fix t assume t: "t \<in> set ?P"
    obtain a b x where abx: "t = (a, b, x)" by (cases t)
    have "a \<in> set ?ns" "b \<in> set ?ns" using mem [OF t] abx by simp_all
    then show "(\<lambda>(a, b, x). case n2i gr a of Inl e \<Rightarrow> Inl e
                  | Inr i \<Rightarrow> (case n2i gr b of Inl e \<Rightarrow> Inl e | Inr j \<Rightarrow> Inr (i, j, x))) t
              = Inr (?h t)"
      by (simp add: abx n2i_mem)
  qed
  have me: "map_err (\<lambda>(a, b, x). case n2i gr a of Inl e \<Rightarrow> Inl e
                  | Inr i \<Rightarrow> (case n2i gr b of Inl e \<Rightarrow> Inl e | Inr j \<Rightarrow> Inr (i, j, x))) ?P
        = Inr (map ?h ?P)"
    using ok by (rule map_err_ok)
  have inj: "inj_on (\<lambda>t. (?idx (fst t), ?idx (fst (snd t)))) (set ?P)"
  proof (rule inj_onI)
    fix s t assume s: "s \<in> set ?P" and t: "t \<in> set ?P"
      and eq: "(?idx (fst s), ?idx (fst (snd s))) = (?idx (fst t), ?idx (fst (snd t)))"
    have "fst s = fst t" "fst (snd s) = fst (snd t)"
      using eq mem [OF s] mem [OF t] the_index_inj [of _ ?ns] by auto
    then have pe: "(fst s, fst (snd s)) = (fst t, fst (snd t))" by simp
    have "inj_on (\<lambda>t. (fst t, fst (snd t))) (set ?P)"
      using sp by (simp add: distinct_map)
    then show "s = t" using pe s t by (auto dest: inj_onD)
  qed
  have dP: "distinct ?P" using sp by (simp add: distinct_map)
  have "distinct (map (\<lambda>t. (?idx (fst t), ?idx (fst (snd t)))) ?P)"
    using dP inj by (simp add: distinct_map)
  moreover have "map (\<lambda>t. (?idx (fst t), ?idx (fst (snd t)))) ?P
        = map (\<lambda>u. (fst u, fst (snd u))) (map ?h ?P)"
    by (simp add: comp_def case_prod_unfold)
  ultimately have "distinct (map (\<lambda>u. (fst u, fst (snd u))) (map ?h ?P))" by simp
  then have "distinct (map ?h ?P)" by (simp only: distinct_map)
  then have "remdups (map ?h ?P) = map ?h ?P" by (rule distinct_remdups_id)
  then show "map_sum id remdups
       (map_err (\<lambda>(a, b, x). case n2i gr a of Inl e \<Rightarrow> Inl e
                  | Inr i \<Rightarrow> (case n2i gr b of Inl e \<Rightarrow> Inl e | Inr j \<Rightarrow> Inr (i, j, x))) ?P)
     = Inr (map ?h ?P)"
    by (simp add: me)
qed

lemma loss_pos_terms_indexed:
  "\<forall>(a, b, x)\<in>set P. idx a < length st \<and> idx b < length st \<Longrightarrow>
   loss_pos_terms st (map (\<lambda>(a, b, x). (idx a, idx b, x)) P)
     = Inr (concat (map (\<lambda>(a, b, x). if st ! idx a \<noteq> st ! idx b then [x] else []) P))"
  by (induction P) auto

lemma loss_neg_terms_indexed:
  "\<forall>(a, b, x)\<in>set P. idx a < length st \<and> idx b < length st \<Longrightarrow>
   loss_neg_terms st (map (\<lambda>(a, b, x). (idx a, idx b, x)) P)
     = Inr (concat (map (\<lambda>(a, b, x). if st ! idx a = st ! idx b then [\<bar>x\<bar>] else []) P))"
  by (induction P) auto

lemma concat_map_selected:
  "concat (map F (concat (map S es))) = concat (map (\<lambda>e. concat (map F (S e))) es)"
  by (induction es) auto

lemma search_prepare_clustering:
  assumes wf: "wf_graph gr" and cl: "is_clustering gr classes"
  shows "\<exists>ep en st. search_prepare gr classes = Inr (ep, en, st, spec_loss gr classes)"
proof -
  let ?ns = "g_nodes gr"
  let ?idx = "the_index ?ns"
  let ?flat = "flat_from 0 classes"
  let ?items = "map (\<lambda>(i, a). (?idx a, i)) ?flat"
  let ?st = "init_state_of ?items"
  let ?h = "\<lambda>(a, b, x). (?idx a, ?idx b, x)"
  let ?ps = "\<lambda>(a, b, w). case w of Val x \<Rightarrow> (if 0 \<le> x then [(a, b, x)] else []) | NaN \<Rightarrow> []"
  let ?ns' = "\<lambda>(a, b, w). case w of Val x \<Rightarrow> (if x < 0 then [(a, b, x)] else []) | NaN \<Rightarrow> []"
  let ?P = "concat (map ?ps (g_edges gr))"
  let ?N = "concat (map ?ns' (g_edges gr))"
  have dn: "distinct ?ns" using wf by (simp add: wf_graph_def)
  have dc: "distinct (concat classes)" and sc: "set (concat classes) = set ?ns"
    using cl by (simp_all add: is_clustering_def)
  have items: "n2c_items gr classes = Inr ?items"
    by (rule n2c_items_clustering) (simp only: sc subset_refl)
  note st = init_state_clustering [OF dn cl]
  have sel_p: "?ps e = [] \<or> (\<exists>x. ?ps e = [(fst e, fst (snd e), x)])" for e
    by (cases e) (auto split: weight.splits)
  have sel_n: "?ns' e = [] \<or> (\<exists>x. ?ns' e = [(fst e, fst (snd e), x)])" for e
    by (cases e) (auto split: weight.splits)
  have ep: "edges_positive gr = Inr (map ?h ?P)"
    unfolding edges_positive_def by (rule indexed_edges(1) [of ?ps, OF sel_p wf])
  have en: "edges_negative gr = Inr (map ?h ?N)"
    unfolding edges_negative_def by (rule indexed_edges(1) [of ?ns', OF sel_n wf])
  note mp = indexed_edges(2) [of ?ps, OF sel_p wf]
  note mn = indexed_edges(2) [of ?ns', OF sel_n wf]
  have idx_lt: "a \<in> set ?ns \<Longrightarrow> ?idx a < length ?st" for a
    using the_index_props(2) [of a ?ns] st(1) by simp
  have same: "?st ! ?idx a = ?st ! ?idx b \<longleftrightarrow> same_cluster classes a b"
    if a: "a \<in> set ?ns" and b: "b \<in> set ?ns" for a b
  proof -
    have "a \<in> set (map snd ?flat)" "b \<in> set (map snd ?flat)"
      using a b by (simp_all only: map_snd_flat sc)
    then obtain i j where ij: "(i, a) \<in> set ?flat" "(j, b) \<in> set ?flat" by auto
    have sa: "?st ! ?idx a = i" and sb: "?st ! ?idx b = j" using st(2) ij by auto
    show ?thesis
    proof
      assume "?st ! ?idx a = ?st ! ?idx b"
      then have "i = j" using sa sb by simp
      then show "same_cluster classes a b" using ij unfolding same_cluster_iff by blast
    next
      assume "same_cluster classes a b"
      then obtain k where k: "(k, a) \<in> set ?flat" "(k, b) \<in> set ?flat"
        unfolding same_cluster_iff by blast
      have "k = i" "k = j" using flat_unique [OF dc] k ij by blast+
      then show "?st ! ?idx a = ?st ! ?idx b" using sa sb by simp
    qed
  qed
  have lp: "loss_pos_terms ?st (map ?h ?P)
      = Inr (concat (map (\<lambda>(a, b, x). if ?st ! ?idx a \<noteq> ?st ! ?idx b then [x] else []) ?P))"
    by (rule loss_pos_terms_indexed) (use mp idx_lt in fastforce)
  have ln: "loss_neg_terms ?st (map ?h ?N)
      = Inr (concat (map (\<lambda>(a, b, x). if ?st ! ?idx a = ?st ! ?idx b then [\<bar>x\<bar>] else []) ?N))"
    by (rule loss_neg_terms_indexed) (use mn idx_lt in fastforce)
  have cp: "concat (map (\<lambda>(a, b, x). if ?st ! ?idx a \<noteq> ?st ! ?idx b then [x] else []) ?P)
      = concat (map (\<lambda>(a, b, x). if \<not> same_cluster classes a b then [x] else []) ?P)"
    by (rule arg_cong [where f = concat], rule map_cong [OF refl]) (use mp same in fastforce)
  have cn: "concat (map (\<lambda>(a, b, x). if ?st ! ?idx a = ?st ! ?idx b then [\<bar>x\<bar>] else []) ?N)
      = concat (map (\<lambda>(a, b, x). if same_cluster classes a b then [\<bar>x\<bar>] else []) ?N)"
    by (rule arg_cong [where f = concat], rule map_cong [OF refl]) (use mn same in fastforce)
  have sp: "concat (map (\<lambda>(a, b, x). if \<not> same_cluster classes a b then [x] else []) ?P)
      = concat (map (\<lambda>(a, b, w). case w of
                   Val x \<Rightarrow> (if 0 \<le> x \<and> \<not> same_cluster classes a b then [x] else [])
                 | NaN \<Rightarrow> []) (g_edges gr))"
    unfolding concat_map_selected
    by (rule arg_cong [where f = concat], rule map_cong [OF refl]) (auto split: weight.splits)
  have sn: "concat (map (\<lambda>(a, b, x). if same_cluster classes a b then [\<bar>x\<bar>] else []) ?N)
      = concat (map (\<lambda>(a, b, w). case w of
                   Val x \<Rightarrow> (if x < 0 \<and> same_cluster classes a b then [\<bar>x\<bar>] else [])
                 | NaN \<Rightarrow> []) (g_edges gr))"
    unfolding concat_map_selected
    by (rule arg_cong [where f = concat], rule map_cong [OF refl]) (auto split: weight.splits)
  have loss: "conflict_loss (map ?h ?P) (map ?h ?N) ?st = Inr (spec_loss gr classes)"
    unfolding conflict_loss_def lp ln cp cn sp sn spec_loss_def by simp
  have "search_prepare gr classes = Inr (map ?h ?P, map ?h ?N, ?st, spec_loss gr classes)"
    unfolding search_prepare_def items ep en by (simp add: loss Let_def)
  then show ?thesis by blast
qed


text \<open>
  Claim C3.  For a networkx graph and an initial clustering of its nodes (the default
  connected components, or a given clustering with every node in exactly one cluster):
  the loss the search computes for the initial state is the loss of the clustering as
  the specification defines it, and when that loss is zero the search returns the
  initial clustering sorted by size (a stable sort, largest first), whatever the
  annealer is, with the generator state untouched: no annealing is run.
\<close>

theorem zero_loss_returns_initial:
  assumes "wf_graph gr"
    and "initial \<noteq> [] \<longrightarrow> is_clustering gr initial"
    and "spec_loss gr (if initial = [] then cluster_connected_components gr else initial) = 0"
  shows "cluster_correlation_search sa gr s max_attempts max_iters initial split_flag r
       = Inr (sort_by_size (if initial = [] then cluster_connected_components gr else initial), r)"
proof -
  let ?classes = "if initial = [] then cluster_connected_components gr else initial"
  have "is_clustering gr ?classes"
    using assms(2) components_clustering [OF assms(1)] by simp
  from search_prepare_clustering [OF assms(1) this] obtain ep en st where
    "search_prepare gr ?classes = Inr (ep, en, st, spec_loss gr ?classes)" by blast
  then have "search_prepare gr ?classes = Inr (ep, en, st, 0)" using assms(3) by simp
  then show ?thesis by (simp add: cluster_correlation_search_def Let_def)
qed

theorem zero_loss_returns_initial_witness:
  "wf_graph \<lparr>g_nodes = [0, 1, 2, 3], g_edges = [(0, 1, Val 1), (1, 2, Val 1), (0, 2, Val 1)]\<rparr>
   \<and> spec_loss \<lparr>g_nodes = [0, 1, 2, 3], g_edges = [(0, 1, Val 1), (1, 2, Val 1), (0, 2, Val 1)]\<rparr>
        [ [0, 1, 2], [3] ] = 0
   \<and> cluster_correlation_search (\<lambda>fitness len max_val init max_attempts max_iters r. Inl ValueError)
        \<lparr>g_nodes = [0, 1, 2, 3], g_edges = [(0, 1, Val 1), (1, 2, Val 1), (0, 2, Val 1)]\<rparr>
        10 200 5000 [] True (sconst 0)
      = Inr ([ [0, 1, 2], [3] ], sconst 0)"
proof -
  define gr where "gr = \<lparr>g_nodes = [0, 1, 2, 3], g_edges = [(0, 1, Val 1), (1, 2, Val 1), (0, 2, Val 1)]\<rparr>"
  have wf: "wf_graph gr" by (simp add: wf_graph_def gr_def)
  have rn: "remove_negative_edges gr = gr"
    by (simp add: remove_negative_edges_def gr_def)
  have b0: "plain_bfs [(0, 1, Val 1), (1, 2, Val 1), (0, 2, Val 1)] [] [0] = [0, 1, 2]"
    by (simp add: plain_bfs.simps adj_def)
  have b3: "plain_bfs [(0, 1, Val 1), (1, 2, Val 1), (0, 2, Val 1)] [] [3] = [3]"
    by (simp add: plain_bfs.simps adj_def)
  have cc: "connected_components gr = [ [0, 1, 2], [3] ]"
    by (simp add: connected_components_def gr_def b0 b3)
  have ccc: "cluster_connected_components gr = [ [0, 1, 2], [3] ]"
    by (simp add: cluster_connected_components_def rn cc)
  have sl: "spec_loss gr [ [0, 1, 2], [3] ] = 0"
    by (simp add: spec_loss_def same_cluster_def gr_def)
  have h2: "([]::int list list) \<noteq> [] \<longrightarrow> is_clustering gr []" by simp
  have h3: "spec_loss gr (if ([]::int list list) = [] then cluster_connected_components gr else []) = 0"
    using sl by (simp add: ccc)
  have sb: "sort_by_size [ [0, 1, 2], [3] ] = [ [0, 1, 2], [3::int] ]"
    by (simp add: sort_by_size_def)
  from zero_loss_returns_initial [OF wf h2 h3,
      of "\<lambda>fitness len max_val init max_attempts max_iters r. Inl ValueError" 10 200 5000 True "sconst 0"]
  have "cluster_correlation_search (\<lambda>fitness len max_val init max_attempts max_iters r. Inl ValueError)
        gr 10 200 5000 [] True (sconst 0) = Inr ([ [0, 1, 2], [3] ], sconst 0)"
    by (simp add: ccc sb)
  then show ?thesis using wf sl unfolding gr_def by blast
qed

end
